theory Spec2Isabelle
  imports Complex_Main "HOL-Library.Log_Nat"
begin

section \<open>Double-precision values\<close>

text \<open>
  The program computes with C++ \<open>double\<close>. A value is a NaN, an infinity with its sign
  bit, or a finite number given by its sign bit and its magnitude (a real number), so the
  two zeros \<open>Fin False 0\<close> and \<open>Fin True 0\<close> are distinct. All NaNs are identified.
  Every arithmetic operation computes the exact real result and rounds it to the
  nearest binary64 value, ties to even (53 significant bits, least exponent \<open>-1074\<close>,
  overflow at \<open>2 ^ 1024\<close>). No fused multiply-add is assumed.
\<close>

datatype double = NaN | Inf bool | Fin bool real

definition pow2 :: "int \<Rightarrow> real" where
  "pow2 e = (if 0 \<le> e then 2 ^ nat e else 1 / 2 ^ nat (- e))"

definition ilog2 :: "real \<Rightarrow> int" where
  \<comment> \<open>the integer part of the binary logarithm of a positive real\<close>
  "ilog2 a = (if 1 \<le> a then bitlen \<lfloor>a\<rfloor> - 1 else - bitlen (\<lceil>1 / a\<rceil> - 1))"

definition quantum :: "real \<Rightarrow> real" where
  \<comment> \<open>the spacing of the binary64 grid around the magnitude \<open>a\<close>\<close>
  "quantum a = pow2 (max (ilog2 a - 52) (- 1074))"

definition round_half_even :: "real \<Rightarrow> int" where
  "round_half_even x =
     (let f = \<lfloor>x\<rfloor>; r = x - of_int f
      in if r < 1 / 2 then f
         else if 1 / 2 < r then f + 1
         else if even f then f else f + 1)"

definition rnd_mag :: "real \<Rightarrow> real" where
  "rnd_mag a = of_int (round_half_even (a / quantum a)) * quantum a"

definition rnd :: "bool \<Rightarrow> real \<Rightarrow> double" where
  \<comment> \<open>round the magnitude \<open>a\<close> with sign bit \<open>s\<close> to binary64\<close>
  "rnd s a = (let r = rnd_mag a in if 2 ^ 1024 \<le> r then Inf s else Fin s r)"

definition representable :: "real \<Rightarrow> bool" where
  "representable a \<longleftrightarrow>
     0 \<le> a \<and> a < 2 ^ 1024 \<and> a / quantum a = of_int \<lfloor>a / quantum a\<rfloor>"

fun is_double :: "double \<Rightarrow> bool" where
  "is_double (Fin s a) = representable a"
| "is_double _ = True"

fun is_finite :: "double \<Rightarrow> bool" where
  "is_finite (Fin s a) = True"
| "is_finite _ = False"

fun isnan :: "double \<Rightarrow> bool" where
  "isnan NaN = True"
| "isnan _ = False"

fun is_zero :: "double \<Rightarrow> bool" where
  "is_zero (Fin s a) = (a = 0)"
| "is_zero _ = False"

definition sval :: "bool \<Rightarrow> real \<Rightarrow> real" where
  "sval s a = (if s then - a else a)"

fun dneg :: "double \<Rightarrow> double" where
  "dneg NaN = NaN"
| "dneg (Inf s) = Inf (\<not> s)"
| "dneg (Fin s a) = Fin (\<not> s) a"

fun dabs :: "double \<Rightarrow> double" where
  "dabs NaN = NaN"
| "dabs (Inf s) = Inf False"
| "dabs (Fin s a) = Fin False a"

fun dadd :: "double \<Rightarrow> double \<Rightarrow> double" where
  "dadd NaN y = NaN"
| "dadd x NaN = NaN"
| "dadd (Inf s) (Inf t) = (if s = t then Inf s else NaN)"
| "dadd (Inf s) (Fin t b) = Inf s"
| "dadd (Fin s a) (Inf t) = Inf t"
| "dadd (Fin s a) (Fin t b) =
     (let r = sval s a + sval t b
      in if r = 0 then Fin (s \<and> t) 0 else rnd (r < 0) \<bar>r\<bar>)"

definition dsub :: "double \<Rightarrow> double \<Rightarrow> double" where
  "dsub x y = dadd x (dneg y)"

fun dmul :: "double \<Rightarrow> double \<Rightarrow> double" where
  "dmul NaN y = NaN"
| "dmul x NaN = NaN"
| "dmul (Inf s) (Inf t) = Inf (s \<noteq> t)"
| "dmul (Inf s) (Fin t b) = (if b = 0 then NaN else Inf (s \<noteq> t))"
| "dmul (Fin s a) (Inf t) = (if a = 0 then NaN else Inf (s \<noteq> t))"
| "dmul (Fin s a) (Fin t b) = rnd (s \<noteq> t) (a * b)"

fun ddiv :: "double \<Rightarrow> double \<Rightarrow> double" where
  "ddiv NaN y = NaN"
| "ddiv x NaN = NaN"
| "ddiv (Inf s) (Inf t) = NaN"
| "ddiv (Inf s) (Fin t b) = Inf (s \<noteq> t)"
| "ddiv (Fin s a) (Inf t) = Fin (s \<noteq> t) 0"
| "ddiv (Fin s a) (Fin t b) =
     (if b = 0 then (if a = 0 then NaN else Inf (s \<noteq> t))
      else rnd (s \<noteq> t) (a / b))"

fun dlt :: "double \<Rightarrow> double \<Rightarrow> bool" where
  "dlt NaN y = False"
| "dlt x NaN = False"
| "dlt (Inf s) (Inf t) = (s \<and> \<not> t)"
| "dlt (Inf s) (Fin t b) = s"
| "dlt (Fin s a) (Inf t) = (\<not> t)"
| "dlt (Fin s a) (Fin t b) = (sval s a < sval t b)"

fun dle :: "double \<Rightarrow> double \<Rightarrow> bool" where
  "dle NaN y = False"
| "dle x NaN = False"
| "dle (Inf s) (Inf t) = (s \<or> \<not> t)"
| "dle (Inf s) (Fin t b) = s"
| "dle (Fin s a) (Inf t) = (\<not> t)"
| "dle (Fin s a) (Fin t b) = (sval s a \<le> sval t b)"

definition dgt :: "double \<Rightarrow> double \<Rightarrow> bool" where
  "dgt x y = dlt y x"

definition dge :: "double \<Rightarrow> double \<Rightarrow> bool" where
  "dge x y = dle y x"

subsection \<open>Square root\<close>

fun isqrt_aux :: "nat \<Rightarrow> int \<Rightarrow> int \<Rightarrow> int" where
  "isqrt_aux 0 n r = r"
| "isqrt_aux (Suc k) n r =
     (let c = r + 2 ^ k in if c * c \<le> n then isqrt_aux k n c else isqrt_aux k n r)"

definition isqrt :: "int \<Rightarrow> int" where
  \<comment> \<open>the integer part of the square root, found bit by bit\<close>
  "isqrt n = isqrt_aux (nat (bitlen n)) n 0"

definition sqrt_mag :: "real \<Rightarrow> real" where
  \<comment> \<open>a number that rounds as the square root of \<open>a\<close> does: the root of \<open>a\<close>
      scaled to more than 55 bits, with half a unit added when it is inexact\<close>
  "sqrt_mag a =
     (let k = nat ((112 - ilog2 a) div 2);
          m = a * 4 ^ k;
          r = isqrt \<lfloor>m\<rfloor>
      in (of_int r + (if of_int (r * r) = m then 0 else 1 / 2)) / 2 ^ k)"

fun dsqrt :: "double \<Rightarrow> double" where
  "dsqrt NaN = NaN"
| "dsqrt (Inf s) = (if s then NaN else Inf False)"
| "dsqrt (Fin s a) = (if a = 0 then Fin s 0 else if s then NaN else rnd False (sqrt_mag a))"

subsection \<open>Library functions and literals\<close>

fun dround :: "double \<Rightarrow> double" where
  \<comment> \<open>\<open>std::round\<close>: to the nearest integer, halfway cases away from zero\<close>
  "dround NaN = NaN"
| "dround (Inf s) = Inf s"
| "dround (Fin s a) = Fin s (of_int \<lfloor>a + 1 / 2\<rfloor>)"

definition dmax :: "double \<Rightarrow> double \<Rightarrow> double" where
  \<comment> \<open>\<open>std::max(a, b)\<close> is \<open>(a < b) ? b : a\<close>\<close>
  "dmax a b = (if dlt a b then b else a)"

definition dmin :: "double \<Rightarrow> double \<Rightarrow> double" where
  \<comment> \<open>\<open>std::min(a, b)\<close> is \<open>(b < a) ? b : a\<close>\<close>
  "dmin a b = (if dlt b a then b else a)"

definition pow10 :: "int \<Rightarrow> double" where
  \<comment> \<open>\<open>std::pow(10.0, n)\<close> for an \<open>int\<close> exponent, taken as correctly rounded. This is
      what the library returns where \<open>10 ^ n\<close> is itself a double (\<open>0 \<le> n \<le> 22\<close>), in
      particular for \<open>n = 6\<close>, the only exponent \<open>Intersect\<close> passes; for other
      exponents a library may be one unit in the last place off.\<close>
  "pow10 n = (if 0 \<le> n then rnd False (10 ^ nat n) else rnd False (1 / 10 ^ nat (- n)))"

definition zero :: double where
  "zero = Fin False 0"

definition one :: double where
  "one = Fin False 1"

definition eps :: double where
  \<comment> \<open>\<open>constexpr double eps = 10e-6\<close>\<close>
  "eps = rnd False (1 / 100000)"

section \<open>Vector3D\<close>

record Vector3D =
  X :: double
  Y :: double
  Z :: double

definition vec :: "double \<Rightarrow> double \<Rightarrow> double \<Rightarrow> Vector3D" where
  "vec x y z = \<lparr>X = x, Y = y, Z = z\<rparr>"

definition dot_product :: "Vector3D \<Rightarrow> Vector3D \<Rightarrow> double" where
  "dot_product this v =
     dadd (dadd (dmul (X v) (X this)) (dmul (Y v) (Y this))) (dmul (Z v) (Z this))"

definition cross_product :: "Vector3D \<Rightarrow> Vector3D \<Rightarrow> Vector3D" where
  "cross_product this v =
     vec (dsub (dmul (Y this) (Z v)) (dmul (Z this) (Y v)))
         (dneg (dsub (dmul (X this) (Z v)) (dmul (Z this) (X v))))
         (dsub (dmul (X this) (Y v)) (dmul (Y this) (X v)))"

definition vsub :: "Vector3D \<Rightarrow> Vector3D \<Rightarrow> Vector3D" where
  "vsub this v = vec (dsub (X this) (X v)) (dsub (Y this) (Y v)) (dsub (Z this) (Z v))"

definition vadd :: "Vector3D \<Rightarrow> Vector3D \<Rightarrow> Vector3D" where
  "vadd this v = vec (dadd (X this) (X v)) (dadd (Y this) (Y v)) (dadd (Z this) (Z v))"

definition vscale :: "Vector3D \<Rightarrow> double \<Rightarrow> Vector3D" where
  "vscale this factor = vec (dmul (X this) factor) (dmul (Y this) factor) (dmul (Z this) factor)"

definition approx_eq :: "Vector3D \<Rightarrow> Vector3D \<Rightarrow> bool" where
  \<comment> \<open>\<open>Vector3D::operator==\<close>\<close>
  "approx_eq this v \<longleftrightarrow>
     dle (dsub (X v) (X this)) eps \<and> dle (dsub (Y v) (Y this)) eps
     \<and> dle (dsub (Z v) (Z this)) eps"

definition approx_neq :: "Vector3D \<Rightarrow> Vector3D \<Rightarrow> bool" where
  \<comment> \<open>\<open>Vector3D::operator!=\<close>\<close>
  "approx_neq this v \<longleftrightarrow> \<not> approx_eq this v"

definition length_v :: "Vector3D \<Rightarrow> double" where
  "length_v this =
     dsqrt (dadd (dadd (dmul (X this) (X this)) (dmul (Y this) (Y this)))
                 (dmul (Z this) (Z this)))"

definition is_nan :: "Vector3D \<Rightarrow> bool" where
  "is_nan this \<longleftrightarrow> isnan (X this) \<or> isnan (Y this) \<or> isnan (Z this)"

definition nan_vec :: Vector3D where
  \<comment> \<open>\<open>Vector3D(NAN, NAN, NAN)\<close>\<close>
  "nan_vec = vec NaN NaN NaN"

section \<open>Segment3D and Intersect\<close>

record Segment3D =
  start :: Vector3D
  endp :: Vector3D

definition seg :: "Vector3D \<Rightarrow> Vector3D \<Rightarrow> Segment3D" where
  "seg s e = \<lparr>start = s, endp = e\<rparr>"

definition round_to_n :: "double \<Rightarrow> int \<Rightarrow> double" where
  "round_to_n v n = (let factor = pow10 n in ddiv (dround (dmul v factor)) factor)"

definition collinear_overlap :: "Vector3D \<Rightarrow> Vector3D \<Rightarrow> Vector3D \<Rightarrow> Vector3D \<Rightarrow> Vector3D" where
  \<comment> \<open>the \<open>else\<close> branch of the parallel case, lines 132 to 147\<close>
  "collinear_overlap P1 u Q1 Q2 =
     (let t0 = ddiv (dot_product (vsub Q1 P1) u) (dot_product u u);
          t1 = ddiv (dot_product (vsub Q2 P1) u) (dot_product u u);
          lo = (if dgt t0 t1 then t1 else t0);
          hi = (if dgt t0 t1 then t0 else t1);
          t_start = dmax zero lo;
          t_end = dmin one hi
      in if dgt t_start t_end then nan_vec else vadd P1 (vscale u t_start))"

definition general_position :: "Vector3D \<Rightarrow> Vector3D \<Rightarrow> Vector3D \<Rightarrow> Vector3D \<Rightarrow> Vector3D" where
  \<comment> \<open>the code after the parallel case, lines 151 to 180\<close>
  "general_position P1 u Q1 v =
     (let w0 = vsub P1 Q1;
          a = dot_product u u;
          b = dot_product v u;
          c = dot_product v v;
          d = dot_product u w0;
          e = dot_product v w0;
          demoninator = dsub (dmul a c) (dmul b b);
          t = round_to_n (ddiv (dadd (dneg (dmul d c)) (dmul b e)) demoninator) 6;
          s = ddiv (dadd e (dmul b t)) c;
          Pt = vadd P1 (vscale u t);
          Qs = vadd Q1 (vscale v s)
      in if dgt (length_v (vsub Pt Qs)) eps then nan_vec
         else if dgt t one \<or> dlt t zero \<or> dgt s one \<or> dlt s zero then nan_vec
         else Pt)"

definition Intersect :: "Segment3D \<Rightarrow> Segment3D \<Rightarrow> Vector3D" where
  "Intersect s1 s2 =
     (let P1 = start s1; P2 = endp s1; Q1 = start s2; Q2 = endp s2;
          u = vsub P2 P1; v = vsub Q2 Q1; w0 = vsub P1 Q1
      in if dlt (dabs (length_v (cross_product v u))) eps
         then (let d = ddiv (length_v (cross_product u w0)) (length_v u)
               in if dgt d zero then nan_vec else collinear_overlap P1 u Q1 Q2)
         else general_position P1 u Q1 v)"

section \<open>Predicates used in the statements\<close>

fun deq :: "double \<Rightarrow> double \<Rightarrow> bool" where
  \<comment> \<open>the comparison \<open>==\<close> of doubles: the two zeros are equal, a NaN equals nothing\<close>
  "deq NaN y = False"
| "deq x NaN = False"
| "deq (Inf s) (Inf t) = (s = t)"
| "deq (Inf s) (Fin t b) = False"
| "deq (Fin s a) (Inf t) = False"
| "deq (Fin s a) (Fin t b) = (sval s a = sval t b)"

definition same_point :: "Vector3D \<Rightarrow> Vector3D \<Rightarrow> bool" where
  "same_point v w \<longleftrightarrow> deq (X v) (X w) \<and> deq (Y v) (Y w) \<and> deq (Z v) (Z w)"

definition double_vec :: "Vector3D \<Rightarrow> bool" where
  "double_vec w \<longleftrightarrow> is_double (X w) \<and> is_double (Y w) \<and> is_double (Z w)"

definition finite_vec :: "Vector3D \<Rightarrow> bool" where
  "finite_vec w \<longleftrightarrow> is_finite (X w) \<and> is_finite (Y w) \<and> is_finite (Z w)"

definition neg_zero_free :: "Vector3D \<Rightarrow> bool" where
  "neg_zero_free w \<longleftrightarrow> X w \<noteq> Fin True 0 \<and> Y w \<noteq> Fin True 0 \<and> Z w \<noteq> Fin True 0"

definition zero_or_nan :: "double \<Rightarrow> bool" where
  "zero_or_nan x \<longleftrightarrow> isnan x \<or> is_zero x"

definition zero_vec :: "Vector3D \<Rightarrow> bool" where
  "zero_vec w \<longleftrightarrow> is_zero (X w) \<and> is_zero (Y w) \<and> is_zero (Z w)"

definition zn_vec :: "Vector3D \<Rightarrow> bool" where
  "zn_vec w \<longleftrightarrow> zero_or_nan (X w) \<and> zero_or_nan (Y w) \<and> zero_or_nan (Z w)"

fun val :: "double \<Rightarrow> real" where
  \<comment> \<open>the real number a finite double stands for; the statements use it on finite
      doubles only\<close>
  "val (Fin s a) = sval s a"
| "val NaN = 0"
| "val (Inf s) = 0"

definition fin_double :: "double \<Rightarrow> bool" where
  "fin_double x \<longleftrightarrow> is_finite x \<and> is_double x"

definition fin_vec :: "Vector3D \<Rightarrow> bool" where
  "fin_vec w \<longleftrightarrow> fin_double (X w) \<and> fin_double (Y w) \<and> fin_double (Z w)"

definition srnd :: "real \<Rightarrow> real" where
  \<comment> \<open>rounding of a signed real number, as long as the result does not overflow\<close>
  "srnd r = (if r < 0 then - rnd_mag (- r) else rnd_mag r)"

definition fl_dot :: "real \<Rightarrow> real \<Rightarrow> real \<Rightarrow> real \<Rightarrow> real \<Rightarrow> real \<Rightarrow> real" where
  \<comment> \<open>the value of \<open>dot_product\<close>: each product and each sum is rounded\<close>
  "fl_dot a1 a2 a3 b1 b2 b3 = srnd (srnd (srnd (b1 * a1) + srnd (b2 * a2)) + srnd (b3 * a3))"

definition exact1 :: "double \<Rightarrow> double \<Rightarrow> bool" where
  \<comment> \<open>the difference of \<open>a\<close> and \<open>b\<close> is itself a double, of magnitude at most \<open>2 ^ 511\<close>\<close>
  "exact1 a b \<longleftrightarrow> representable \<bar>val a - val b\<bar> \<and> \<bar>val a - val b\<bar> \<le> 2 ^ 511"

definition exact_diff :: "Vector3D \<Rightarrow> Vector3D \<Rightarrow> bool" where
  "exact_diff A B \<longleftrightarrow> exact1 (X A) (X B) \<and> exact1 (Y A) (Y B) \<and> exact1 (Z A) (Z B)"

definition at_param :: "Vector3D \<Rightarrow> Vector3D \<Rightarrow> real \<Rightarrow> Vector3D \<Rightarrow> bool" where
  \<comment> \<open>\<open>Q\<close> is the point \<open>P1 + \<mu> * (P2 - P1)\<close> of the line through \<open>P1\<close> and \<open>P2\<close>,
      in real arithmetic\<close>
  "at_param P1 P2 \<mu> Q \<longleftrightarrow>
     val (X Q) - val (X P1) = \<mu> * (val (X P2) - val (X P1))
     \<and> val (Y Q) - val (Y P1) = \<mu> * (val (Y P2) - val (Y P1))
     \<and> val (Z Q) - val (Z P1) = \<mu> * (val (Z P2) - val (Z P1))"

definition spans :: "Vector3D \<Rightarrow> Vector3D \<Rightarrow> bool" where
  \<comment> \<open>some coordinate of \<open>P2 - P1\<close> has magnitude at least \<open>2 ^ - 537\<close>\<close>
  "spans P1 P2 \<longleftrightarrow>
     1 / 2 ^ 537 \<le> \<bar>val (X P2) - val (X P1)\<bar>
     \<or> 1 / 2 ^ 537 \<le> \<bar>val (Y P2) - val (Y P1)\<bar>
     \<or> 1 / 2 ^ 537 \<le> \<bar>val (Z P2) - val (Z P1)\<bar>"

definition vals :: "Vector3D \<Rightarrow> real \<Rightarrow> real \<Rightarrow> real \<Rightarrow> bool" where
  "vals w a b c \<longleftrightarrow> fin_vec w \<and> val (X w) = a \<and> val (Y w) = b \<and> val (Z w) = c"

definition bounded_vec :: "Vector3D \<Rightarrow> bool" where
  "bounded_vec w \<longleftrightarrow> fin_vec w \<and> \<bar>val (X w)\<bar> \<le> pow2 511 \<and> \<bar>val (Y w)\<bar> \<le> pow2 511
     \<and> \<bar>val (Z w)\<bar> \<le> pow2 511"

definition at_least :: "double \<Rightarrow> real \<Rightarrow> bool" where
  \<comment> \<open>\<open>x\<close> is \<open>+inf\<close> or a finite double of value at least \<open>c\<close>\<close>
  "at_least x c \<longleftrightarrow> x = Inf False \<or> (fin_double x \<and> c \<le> val x)"

definition nonpos :: "double \<Rightarrow> bool" where
  \<comment> \<open>\<open>x\<close> is \<open>-inf\<close> or a finite double of value at most \<open>0\<close>\<close>
  "nonpos x \<longleftrightarrow> x = Inf True \<or> (fin_double x \<and> val x \<le> 0)"

definition at_least_one :: "double \<Rightarrow> bool" where
  "at_least_one x \<longleftrightarrow> x = Inf False \<or> (\<exists>r. x = Fin False r \<and> 1 \<le> r)"

definition at_most_zero :: "double \<Rightarrow> bool" where
  "at_most_zero x \<longleftrightarrow> x = Inf True \<or> (\<exists>s r. x = Fin s r \<and> 0 \<le> r \<and> (s \<or> r = 0))"

abbreviation direction :: "Segment3D \<Rightarrow> Vector3D" where
  "direction s \<equiv> vsub (endp s) (start s)"

section \<open>Evaluating the arithmetic on numerals\<close>

lemma bitlen_num:
  "bitlen 1 = 1"
  "bitlen (numeral Num.One) = 1"
  "bitlen (numeral (Num.Bit0 n)) = bitlen (numeral n) + 1"
  "bitlen (numeral (Num.Bit1 n)) = bitlen (numeral n) + 1"
  "bitlen (- numeral n) = 0"
  by (subst compute_bitlen, simp)+

lemma isqrt_aux_num:
  "isqrt_aux (numeral k) n r =
     (let c = r + 2 ^ pred_numeral k in
      if c * c \<le> n then isqrt_aux (pred_numeral k) n c else isqrt_aux (pred_numeral k) n r)"
  by (simp add: numeral_eq_Suc)

text \<open>
  A \<open>let\<close> is unfolded only once its argument is a value; together with the
  congruence rule \<open>let_weak_cong\<close> this evaluates a chain of bindings in order.
\<close>

lemma Let_value:
  "Let NaN f = f NaN"
  "Let (Inf s) f = f (Inf s)"
  "Let (Fin s a) f = f (Fin s a)"
  "Let \<lparr>X = x, Y = y, Z = z\<rparr> g = g \<lparr>X = x, Y = y, Z = z\<rparr>"
  "Let (numeral n) h = h (numeral n)"
  "Let (- numeral n) h = h (- numeral n)"
  "Let (numeral n / numeral m) h = h (numeral n / numeral m)"
  "Let 0 h = h 0"
  "Let 1 h = h 1"
  by (simp_all add: Let_def)

lemmas rnd_eval = rnd_def rnd_mag_def quantum_def ilog2_def pow2_def round_half_even_def
  Let_value bitlen_num

lemmas op_eval = sval_def isqrt_def sqrt_mag_def isqrt_aux_num zero_def one_def dsub_def
  dgt_def dge_def dmax_def dmin_def

lemmas vec_eval = vec_def dot_product_def cross_product_def vsub_def vadd_def vscale_def
  length_v_def nan_vec_def seg_def

lemma eps_val: "eps = Fin False (5902958103587057 / 590295810358705651712)"
  by (simp add: eps_def rnd_eval cong: let_weak_cong)

lemma pow10_6: "pow10 6 = Fin False 1000000"
  by (simp add: pow10_def rnd_eval cong: let_weak_cong)

lemma round_to_6:
  "round_to_n x 6 = ddiv (dround (dmul x (Fin False 1000000))) (Fin False 1000000)"
  by (simp add: round_to_n_def pow10_6 Let_def)

section \<open>The integer square root\<close>

lemma isqrt_aux_correct:
  assumes "0 \<le> r" "r * r \<le> n" "n < (r + 2 ^ k) * (r + 2 ^ k)"
  shows "isqrt_aux k n r * isqrt_aux k n r \<le> n
       \<and> n < (isqrt_aux k n r + 1) * (isqrt_aux k n r + 1)"
  using assms
proof (induction k arbitrary: r)
  case 0
  then show ?case by simp
next
  case (Suc k)
  let ?c = "r + 2 ^ k"
  show ?case
  proof (cases "?c * ?c \<le> n")
    case True
    have "?c + 2 ^ k = r + 2 ^ Suc k" by simp
    with Suc.prems(3) have "n < (?c + 2 ^ k) * (?c + 2 ^ k)" by (simp only:)
    moreover have "0 \<le> ?c" using Suc.prems(1) by simp
    ultimately show ?thesis
      using True Suc.IH [of ?c] by (simp add: Let_def)
  next
    case False
    then have "n < ?c * ?c" by simp
    with Suc.prems(1,2) show ?thesis
      using False Suc.IH [of r] by (simp add: Let_def)
  qed
qed

lemma isqrt_correct:
  assumes "0 \<le> n"
  shows "isqrt n * isqrt n \<le> n \<and> n < (isqrt n + 1) * (isqrt n + 1)"
proof (cases "n = 0")
  case True
  then show ?thesis by (simp add: isqrt_def)
next
  case False
  with assms have n: "0 < n" by simp
  let ?k = "nat (bitlen n)"
  have "n < 2 ^ ?k" using bitlen_bounds [OF n] by simp
  moreover have "(1::int) \<le> 2 ^ ?k" by simp
  ultimately have "n * 1 < 2 ^ ?k * 2 ^ ?k"
    by (intro mult_less_le_imp_less) (use n in simp_all)
  then have "n < (0 + 2 ^ ?k) * (0 + 2 ^ ?k)" by simp
  from isqrt_aux_correct [OF _ _ this] assms show ?thesis
    by (simp add: isqrt_def)
qed

section \<open>Basic facts about the operations\<close>

lemma rnd_not_NaN [simp]: "rnd s a \<noteq> NaN"
  by (simp add: rnd_def Let_def)

lemma dgt_zero_iff:
  "dgt x zero \<longleftrightarrow> x = Inf False \<or> (\<exists>s a. x = Fin s a \<and> 0 < sval s a)"
  by (cases x) (auto simp: dgt_def zero_def sval_def)

lemma rnd_cases: "rnd s a = Inf s \<or> rnd s a = Fin s (rnd_mag a)"
  by (simp add: rnd_def Let_def)

lemma dsqrt_nonneg: "dabs (dsqrt x) = dsqrt x \<or> dsqrt x = Fin True 0"
  by (cases x) (auto simp: rnd_def Let_def)

lemma dlt_dabs_dsqrt: "dlt (dabs (dsqrt x)) y = dlt (dsqrt x) y"
  using dsqrt_nonneg [of x] by (cases y) (auto simp: sval_def)


lemma parallel_test_length:
  "dlt (dabs (length_v w)) eps = dlt (length_v w) eps"
  by (simp add: length_v_def dlt_dabs_dsqrt)


lemma is_finite_dneg [simp]: "is_finite (dneg x) = is_finite x"
  by (cases x) simp_all

lemma is_finite_dabs [simp]: "is_finite (dabs x) = is_finite x"
  by (cases x) simp_all

lemma is_finite_dadd: "is_finite (dadd x y) \<Longrightarrow> is_finite x \<and> is_finite y"
  by (cases x; cases y) (simp_all split: if_splits)

lemma is_finite_dsub: "is_finite (dsub x y) \<Longrightarrow> is_finite x \<and> is_finite y"
  using is_finite_dadd [of x "dneg y"] by (simp add: dsub_def)

lemma is_finite_dmul: "is_finite (dmul x y) \<Longrightarrow> is_finite x \<and> is_finite y"
  by (cases x; cases y) (simp_all split: if_splits)








lemma vsub_finite: "finite_vec (vsub p q) \<Longrightarrow> finite_vec p \<and> finite_vec q"
  unfolding finite_vec_def vsub_def vec_def
  by (auto dest!: is_finite_dsub)


lemma dlt_imp_dle: "dlt x y \<Longrightarrow> dle x y"
  by (cases x; cases y) auto

lemma not_dlt_dle: "\<not> isnan x \<Longrightarrow> \<not> isnan y \<Longrightarrow> \<not> dlt y x \<Longrightarrow> dle x y"
  by (cases x; cases y) auto

lemma dle_trans: "dle x y \<Longrightarrow> dle y z \<Longrightarrow> dle x z"
  by (cases x; cases y; cases z) auto

lemma dlt_not_nan: "dlt x y \<Longrightarrow> \<not> isnan x \<and> \<not> isnan y"
  by (cases x; cases y) auto

lemma dle_refl_fin [simp]: "dle (Fin s a) (Fin s a)"
  by simp

lemma dmax_zero_bounds: "dle zero (dmax zero x) \<and> \<not> isnan (dmax zero x)"
  by (auto simp: dmax_def zero_def dest: dlt_imp_dle dlt_not_nan)

lemma dmin_one_bounds: "dle (dmin one x) one \<and> \<not> isnan (dmin one x)"
  by (auto simp: dmin_def one_def dest: dlt_imp_dle dlt_not_nan)

lemma clip_unit_interval:
  assumes "\<not> dgt (dmax zero lo) (dmin one hi)"
  shows "dle zero (dmax zero lo) \<and> dle (dmax zero lo) one"
proof -
  have "dle (dmax zero lo) (dmin one hi)"
    using assms dmax_zero_bounds [of lo] dmin_one_bounds [of hi]
    by (simp add: dgt_def not_dlt_dle)
  then show ?thesis
    using dmax_zero_bounds [of lo] dmin_one_bounds [of hi] by (blast intro: dle_trans)
qed




lemma vadd_vscale_NaN: "vadd p (vscale u NaN) = nan_vec"
proof -
  have "dmul x NaN = NaN" for x by (cases x) simp_all
  moreover have "dadd x NaN = NaN" for x by (cases x) simp_all
  ultimately show ?thesis
    by (simp add: vadd_def vscale_def nan_vec_def vec_def)
qed

section \<open>Zeros, NaNs and exact results\<close>

lemma round_half_even_0 [simp]: "round_half_even 0 = 0"
  by (simp add: round_half_even_def)

lemma rnd_mag_0 [simp]: "rnd_mag 0 = 0"
  by (simp add: rnd_mag_def)

lemma rnd_zero [simp]: "rnd s 0 = Fin s 0"
  by (simp add: rnd_def)

lemma rnd_one: "rnd False 1 = Fin False 1"
  by (simp add: rnd_eval cong: let_weak_cong)

lemma rnd_representable: "representable a \<Longrightarrow> rnd s a = Fin s a"
proof -
  assume r: "representable a"
  then have "a / quantum a = of_int \<lfloor>a / quantum a\<rfloor>"
    by (simp add: representable_def)
  then have "round_half_even (a / quantum a) = \<lfloor>a / quantum a\<rfloor>"
    by (simp add: round_half_even_def Let_def)
  moreover have "quantum a \<noteq> 0"
    by (simp add: quantum_def pow2_def)
  ultimately have "rnd_mag a = a"
    using \<open>a / quantum a = of_int \<lfloor>a / quantum a\<rfloor>\<close> by (simp add: rnd_mag_def)
  with r show ?thesis
    by (simp add: rnd_def representable_def)
qed

lemma dsub_self: "is_finite x \<Longrightarrow> dsub x x = zero"
  by (cases x) (simp_all add: dsub_def sval_def zero_def)

lemma dmul_commute: "dmul x y = dmul y x"
proof -
  have "(s \<noteq> t) = (t \<noteq> s)" for s t :: bool
    by auto
  then show ?thesis
    by (cases x; cases y) (simp_all add: mult.commute)
qed

lemma is_zero_dmul: "is_zero x \<Longrightarrow> is_finite y \<Longrightarrow> is_zero (dmul x y)"
  by (cases x; cases y) simp_all

lemma is_zero_dmul2: "is_finite x \<Longrightarrow> is_zero y \<Longrightarrow> is_zero (dmul x y)"
  by (cases x; cases y) simp_all

lemma is_zero_dadd: "is_zero x \<Longrightarrow> is_zero y \<Longrightarrow> is_zero (dadd x y)"
  by (cases x; cases y) (simp_all add: sval_def)

lemma is_zero_dneg [simp]: "is_zero (dneg x) = is_zero x"
  by (cases x) simp_all

lemma is_zero_dsub: "is_zero x \<Longrightarrow> is_zero y \<Longrightarrow> is_zero (dsub x y)"
  by (simp add: dsub_def is_zero_dadd)

lemma is_zero_finite: "is_zero x \<Longrightarrow> is_finite x"
  by (cases x) simp_all

lemma dmul_zero_square: "is_zero x \<Longrightarrow> dmul x x = zero"
  by (cases x) (simp_all add: zero_def)

lemma zn_dmul: "zero_or_nan x \<Longrightarrow> zero_or_nan (dmul x y)"
  by (cases x; cases y) (simp_all add: zero_or_nan_def)

lemma zn_dmul2: "zero_or_nan y \<Longrightarrow> zero_or_nan (dmul x y)"
  by (simp add: dmul_commute [of x y] zn_dmul)

lemma zn_dadd: "zero_or_nan x \<Longrightarrow> zero_or_nan y \<Longrightarrow> zero_or_nan (dadd x y)"
  by (cases x; cases y) (simp_all add: zero_or_nan_def sval_def)

lemma zn_dneg [simp]: "zero_or_nan (dneg x) = zero_or_nan x"
  by (cases x) (simp_all add: zero_or_nan_def)

lemma zn_dsub: "zero_or_nan x \<Longrightarrow> zero_or_nan y \<Longrightarrow> zero_or_nan (dsub x y)"
  by (simp add: dsub_def zn_dadd)

lemma zn_dsqrt: "zero_or_nan x \<Longrightarrow> zero_or_nan (dsqrt x)"
  by (cases x) (simp_all add: zero_or_nan_def)

lemma zn_is_zero: "is_zero x \<Longrightarrow> zero_or_nan x"
  by (simp add: zero_or_nan_def)

lemma zn_ddiv_zero: "zero_or_nan x \<Longrightarrow> is_zero y \<Longrightarrow> ddiv x y = NaN"
  by (cases x; cases y) (simp_all add: zero_or_nan_def)

lemma zn_ddiv_any: "is_zero x \<Longrightarrow> zero_or_nan (ddiv x y)"
  by (cases x; cases y) (simp_all add: zero_or_nan_def)

lemma zn_not_dgt_zero: "zero_or_nan x \<Longrightarrow> \<not> dgt x zero"
  by (cases x) (simp_all add: zero_or_nan_def dgt_def zero_def sval_def)

lemma zn_not_dlt_zero: "zero_or_nan x \<Longrightarrow> \<not> dlt zero x"
  by (cases x) (simp_all add: zero_or_nan_def zero_def sval_def)

lemma ddiv_self: "ddiv x x = NaN \<or> ddiv x x = one"
  by (cases x) (simp_all add: rnd_one one_def)

lemma vsub_self: "finite_vec p \<Longrightarrow> vsub p p = vec zero zero zero"
  by (simp add: finite_vec_def vsub_def dsub_self)

lemma zero_vec_zeros [simp]: "zero_vec (vec zero zero zero)"
  by (simp add: zero_vec_def vec_def zero_def)

lemma length_zero_vec: "zero_vec w \<Longrightarrow> length_v w = zero"
  by (simp add: zero_vec_def length_v_def dmul_zero_square zero_def sval_def)

lemma length_zn_vec: "zn_vec w \<Longrightarrow> zero_or_nan (length_v w)"
  by (simp add: zn_vec_def length_v_def zn_dsqrt zn_dadd zn_dmul)

lemma cross_zero_right: "finite_vec v \<Longrightarrow> zero_vec u \<Longrightarrow> zero_vec (cross_product v u)"
  by (simp add: finite_vec_def zero_vec_def cross_product_def vec_def is_zero_dsub is_zero_dmul2)

lemma cross_zero_left: "finite_vec v \<Longrightarrow> zero_vec u \<Longrightarrow> zero_vec (cross_product u v)"
  by (simp add: finite_vec_def zero_vec_def cross_product_def vec_def is_zero_dsub is_zero_dmul)

lemma cross_zn_left: "zero_vec u \<Longrightarrow> zn_vec (cross_product u w)"
  by (simp add: zero_vec_def zn_vec_def cross_product_def vec_def zn_dsub zn_dmul zn_is_zero)

lemma dot_zn_right: "zero_vec u \<Longrightarrow> zero_or_nan (dot_product w u)"
  by (simp add: zero_vec_def dot_product_def zn_dadd zn_dmul zn_is_zero)

lemma dot_zero_self: "zero_vec u \<Longrightarrow> is_zero (dot_product u u)"
  by (simp add: zero_vec_def dot_product_def is_zero_dadd is_zero_dmul is_zero_finite)

lemma dot_zero_left: "zero_vec w \<Longrightarrow> finite_vec u \<Longrightarrow> is_zero (dot_product w u)"
  by (simp add: zero_vec_def finite_vec_def dot_product_def is_zero_dadd is_zero_dmul is_zero_dmul2)

lemma dlt_zero_eps: "dlt (dabs zero) eps"
  by (simp add: zero_def eps_val sval_def)

lemma overlap_from_start:
  assumes "zero_or_nan t0" and "t1 = NaN \<or> t1 = one"
  shows "(let lo = (if dgt t0 t1 then t1 else t0);
              hi = (if dgt t0 t1 then t0 else t1);
              t_start = dmax zero lo;
              t_end = dmin one hi
          in if dgt t_start t_end then nan_vec else vadd P1 (vscale u t_start))
         = vadd P1 (vscale u zero)"
proof -
  have a: "\<not> dgt t0 t1"
    using assms by (cases t0) (auto simp: zero_or_nan_def dgt_def one_def sval_def split: if_splits)
  have b: "dmax zero t0 = zero"
    using assms(1) by (simp add: dmax_def zn_not_dlt_zero)
  have c: "dmin one t1 = one"
    using assms(2) by (auto simp: dmin_def one_def)
  have d: "\<not> dgt zero one"
    by (simp add: dgt_def zero_def one_def sval_def)
  show ?thesis
    by (simp add: Let_def a b c d)
qed

lemma dadd_zero_right:
  assumes "is_double x" "is_finite x" "is_zero z"
  shows "deq (dadd x z) x" and "x \<noteq> Fin True 0 \<Longrightarrow> dadd x z = x"
proof -
  obtain s a where x: "x = Fin s a" using assms(2) by (cases x) auto
  obtain t where z: "z = Fin t 0" using assms(3) by (cases z) auto
  have rep: "representable a" using assms(1) x by simp
  then have a0: "0 \<le> a" by (simp add: representable_def)
  show "deq (dadd x z) x"
  proof (cases "a = 0")
    case True
    then show ?thesis by (simp add: x z sval_def)
  next
    case False
    with a0 have "sval s a \<noteq> 0" "(sval s a < 0) = s" "\<bar>sval s a\<bar> = a"
      by (auto simp: sval_def)
    then show ?thesis
      by (simp add: x z rnd_representable [OF rep] sval_def)
  qed
  show "dadd x z = x" if "x \<noteq> Fin True 0"
  proof (cases "a = 0")
    case True
    with that x have "\<not> s" by auto
    with True show ?thesis by (simp add: x z sval_def)
  next
    case False
    with a0 have "sval s a \<noteq> 0" "(sval s a < 0) = s" "\<bar>sval s a\<bar> = a"
      by (auto simp: sval_def)
    then show ?thesis
      by (simp add: x z rnd_representable [OF rep] sval_def)
  qed
qed

lemma vadd_zero_vec:
  assumes "double_vec P" "finite_vec P" "zero_vec z"
  shows "same_point (vadd P z) P" and "neg_zero_free P \<Longrightarrow> vadd P z = P"
  using assms
  by (simp_all add: double_vec_def finite_vec_def zero_vec_def same_point_def vadd_def vec_def
      neg_zero_free_def dadd_zero_right)

lemma same_point_not_nan: "same_point v w \<Longrightarrow> \<not> is_nan v \<and> v \<noteq> nan_vec"
proof -
  have "deq x y \<Longrightarrow> \<not> isnan x" for x y by (cases x; cases y) auto
  then show "same_point v w \<Longrightarrow> \<not> is_nan v \<and> v \<noteq> nan_vec"
    by (auto simp: same_point_def is_nan_def nan_vec_def vec_def)
qed

lemma vscale_zero_vec: "finite_vec u \<Longrightarrow> is_zero t \<Longrightarrow> zero_vec (vscale u t)"
  by (simp add: finite_vec_def zero_vec_def vscale_def vec_def is_zero_dmul2)

lemma zero_vec_finite: "zero_vec w \<Longrightarrow> finite_vec w"
  by (simp add: zero_vec_def finite_vec_def is_zero_finite)

lemma degenerate_result:
  assumes P: "finite_vec P" and v: "finite_vec (direction s2)"
  shows "Intersect (seg P P) s2 = vadd P (vscale (vec zero zero zero) zero)"
proof -
  let ?u = "vec zero zero zero"
  have zu: "zero_vec ?u" by simp
  have par: "dlt (dabs (length_v (cross_product (direction s2) ?u))) eps"
    using cross_zero_right [OF v zu] by (simp add: length_zero_vec dlt_zero_eps)
  have d: "ddiv (length_v (cross_product ?u w)) (length_v ?u) = NaN" for w
    using length_zn_vec [OF cross_zn_left [OF zu, of w]] length_zero_vec [OF zu]
    by (simp add: zn_ddiv_zero zero_def)
  have t: "ddiv (dot_product w ?u) (dot_product ?u ?u) = NaN" for w
    using dot_zn_right [OF zu, of w] dot_zero_self [OF zu] by (rule zn_ddiv_zero)
  have ov: "collinear_overlap P ?u Q1 Q2 = vadd P (vscale ?u zero)" for Q1 Q2
    unfolding collinear_overlap_def t
    by (simp add: Let_def dgt_def dmax_def dmin_def zero_def one_def sval_def)
  show ?thesis
  proof -
    have "\<not> dgt NaN zero" by (simp add: dgt_def zero_def)
    with par show ?thesis
      by (simp add: Intersect_def Let_def seg_def vsub_self [OF P] d ov)
  qed
qed

lemma cross_self_zero:
  assumes "is_finite (dmul (X u) (Y u))" "is_finite (dmul (X u) (Z u))"
    "is_finite (dmul (Y u) (Z u))"
  shows "zero_vec (cross_product u u)"
  using assms
  by (simp add: zero_vec_def cross_product_def vec_def dmul_commute [of "Z u"]
      dmul_commute [of "Y u" "X u"] dsub_self zero_def)

lemmas full_eval = Intersect_def collinear_overlap_def general_position_def round_to_6
  vec_eval op_eval rnd_eval eps_val

section \<open>Rounding gives doubles\<close>

lemma pow2_powi: "pow2 e = 2 powi e"
  by (simp add: pow2_def power_int_def inverse_eq_divide power_one_over)

lemma pow2_pos [simp]: "0 < pow2 e"
  by (simp add: pow2_powi)

lemma pow2_add: "pow2 (i + j) = pow2 i * pow2 j"
  by (simp add: pow2_powi power_int_add)

lemma pow2_diff: "pow2 (i - j) = pow2 i / pow2 j"
  by (simp add: pow2_powi power_int_diff)

lemma pow2_mono: "i \<le> j \<Longrightarrow> pow2 i \<le> pow2 j"
  by (simp add: pow2_powi power_int_increasing)

lemma pow2_strict_mono: "i < j \<Longrightarrow> pow2 i < pow2 j"
  by (simp add: pow2_powi power_int_strict_increasing)

lemma pow2_less_imp: "pow2 i < pow2 j \<Longrightarrow> i < j"
  using pow2_mono [of j i] by (cases "i < j") auto

lemma pow2_0 [simp]: "pow2 0 = 1"
  by (simp add: pow2_def)

lemma pow2_nat: "0 \<le> e \<Longrightarrow> pow2 e = of_int (2 ^ nat e)"
  by (simp add: pow2_def)

lemma pow2_numeral_1024: "pow2 1024 = 2 ^ 1024"
  by (simp add: pow2_def)

lemma pow_le_of_int: "(2::int) ^ k \<le> n \<Longrightarrow> (2::real) ^ k \<le> of_int n"
  by (metis of_int_le_iff of_int_numeral of_int_power)

lemma of_int_less_pow: "n < (2::int) ^ k \<Longrightarrow> real_of_int n + 1 \<le> 2 ^ k"
proof -
  assume "n < (2::int) ^ k"
  then have "n + 1 \<le> 2 ^ k" by simp
  then have "real_of_int (n + 1) \<le> of_int (2 ^ k)" by (simp only: of_int_le_iff)
  then show ?thesis by simp
qed

lemma pow2_nat_real: "0 \<le> e \<Longrightarrow> pow2 e = 2 ^ nat e"
  by (simp add: pow2_def)

lemma ilog2_bounds:
  assumes "0 < a"
  shows "pow2 (ilog2 a) \<le> a" and "a < pow2 (ilog2 a + 1)"
proof -
  have "pow2 (ilog2 a) \<le> a \<and> a < pow2 (ilog2 a + 1)"
  proof (cases "1 \<le> a")
    case True
    define n where "n = \<lfloor>a\<rfloor>"
    have n: "0 < n" "of_int n \<le> a" "a < of_int n + 1"
      unfolding n_def using True by (simp, linarith, linarith)
    have k: "1 \<le> bitlen n"
      using n(1) by (simp add: bitlen_alt_def)
    from bitlen_bounds [OF n(1)]
    have b: "2 ^ nat (bitlen n - 1) \<le> n" "n < 2 ^ nat (bitlen n)" by auto
    have il: "ilog2 a = bitlen n - 1"
      using True by (simp add: ilog2_def n_def)
    have "pow2 (bitlen n - 1) \<le> of_int n"
      using k pow_le_of_int [OF b(1)] by (simp add: pow2_nat_real)
    then have lo: "pow2 (ilog2 a) \<le> a"
      using n(2) il by simp
    have "of_int n + 1 \<le> pow2 (bitlen n)"
      using k of_int_less_pow [OF b(2)] by (simp add: pow2_nat_real)
    then have "a < pow2 (ilog2 a + 1)"
      using n(3) il by simp
    with lo show ?thesis by simp
  next
    case False
    define y where "y = 1 / a"
    define m where "m = \<lceil>y\<rceil> - 1"
    have y: "1 < y"
      using assms False by (simp add: y_def)
    have m: "0 < m" "of_int m < y" "y \<le> of_int m + 1"
      unfolding m_def using y by (linarith, linarith, linarith)
    have k: "1 \<le> bitlen m"
      using m(1) by (simp add: bitlen_alt_def)
    from bitlen_bounds [OF m(1)]
    have b: "2 ^ nat (bitlen m - 1) \<le> m" "m < 2 ^ nat (bitlen m)" by auto
    have il: "ilog2 a = - bitlen m"
      using False by (simp add: ilog2_def m_def y_def)
    have "of_int m + 1 \<le> pow2 (bitlen m)"
      using k of_int_less_pow [OF b(2)] by (simp add: pow2_nat_real)
    then have up: "y \<le> pow2 (bitlen m)"
      using m(3) by simp
    have "pow2 (bitlen m - 1) \<le> of_int m"
      using k pow_le_of_int [OF b(1)] by (simp add: pow2_nat_real)
    then have low: "pow2 (bitlen m - 1) < y"
      using m(2) by simp
    have a: "a = 1 / y"
      by (simp add: y_def)
    have "pow2 (- bitlen m) = 1 / pow2 (bitlen m)"
      by (simp add: pow2_powi power_int_minus_divide)
    also have "\<dots> \<le> 1 / y"
      using up y by (simp add: frac_le)
    finally have lo: "pow2 (ilog2 a) \<le> a"
      unfolding il by (simp add: a)
    have "pow2 (- bitlen m + 1) = 1 / pow2 (bitlen m - 1)"
      using power_int_minus_divide [of "2::real" "bitlen m - 1"] by (simp add: pow2_powi)
    moreover have "1 / y < 1 / pow2 (bitlen m - 1)"
      using low by (simp add: frac_less2)
    ultimately have "a < pow2 (ilog2 a + 1)"
      unfolding il by (simp add: a)
    with lo show ?thesis by simp
  qed
  then show "pow2 (ilog2 a) \<le> a" and "a < pow2 (ilog2 a + 1)"
    by simp_all
qed

lemma ilog2_unique:
  assumes "0 < a" "pow2 k \<le> a" "a < pow2 (k + 1)"
  shows "ilog2 a = k"
proof -
  have "pow2 k < pow2 (ilog2 a + 1)"
    using assms(2) ilog2_bounds(2) [OF assms(1)] by simp
  then have "k < ilog2 a + 1" by (rule pow2_less_imp)
  moreover have "pow2 (ilog2 a) < pow2 (k + 1)"
    using assms(3) ilog2_bounds(1) [OF assms(1)] by simp
  then have "ilog2 a < k + 1" by (rule pow2_less_imp)
  ultimately show ?thesis by simp
qed

lemma ilog2_less:
  assumes "0 < a" "a < pow2 k"
  shows "ilog2 a < k"
proof -
  have "pow2 (ilog2 a) < pow2 k"
    using assms(2) ilog2_bounds(1) [OF assms(1)] by simp
  then show ?thesis by (rule pow2_less_imp)
qed

lemma ilog2_ge:
  assumes "0 < a" "pow2 k \<le> a"
  shows "k \<le> ilog2 a"
proof -
  have "pow2 k < pow2 (ilog2 a + 1)"
    using assms(2) ilog2_bounds(2) [OF assms(1)] by simp
  then have "k < ilog2 a + 1" by (rule pow2_less_imp)
  then show ?thesis by simp
qed

lemma round_half_even_bounds:
  "\<lfloor>x\<rfloor> \<le> round_half_even x" "round_half_even x \<le> \<lfloor>x\<rfloor> + 1"
  by (simp_all add: round_half_even_def Let_def)

lemma round_half_even_of_int [simp]: "round_half_even (of_int n) = n"
  by (simp add: round_half_even_def)

lemma of_int_mult_pow2_int:
  assumes "0 \<le> d"
  shows "of_int m * pow2 d = of_int (m * 2 ^ nat d)"
  using assms by (simp add: pow2_nat_real)

lemma div_pow2: "x * pow2 e / pow2 e' = x * pow2 (e - e')"
  by (simp add: pow2_diff)

lemma representable_0 [simp]: "representable 0"
  by (simp add: representable_def)

lemma representable_grid:
  assumes m: "0 < m" "m \<le> 2 ^ 53" and e: "- 1074 \<le> e" and r: "of_int m * pow2 e < 2 ^ 1024"
  shows "representable (of_int m * pow2 e)"
proof -
  let ?r = "real_of_int m * pow2 e"
  have rpos: "0 < ?r" using m(1) by simp
  have p53: "pow2 53 = 2 ^ 53" by (simp add: pow2_def)
  have whole: "?r / quantum ?r = of_int \<lfloor>?r / quantum ?r\<rfloor>"
  proof (cases "m = 2 ^ 53")
    case True
    then have req: "?r = pow2 (e + 53)"
      by (simp add: pow2_add p53 mult.commute)
    have "pow2 (e + 53) < pow2 (e + 53 + 1)"
      by (rule pow2_strict_mono) simp
    then have "ilog2 ?r = e + 53"
      using rpos by (intro ilog2_unique) (simp_all add: req)
    then have "quantum ?r = pow2 (e + 1)"
      using e by (simp add: quantum_def max_def add.commute)
    then have "?r / quantum ?r = pow2 52"
      by (simp add: req pow2_diff [symmetric])
    then show ?thesis
      by (simp add: pow2_def)
  next
    case False
    with m(2) have "m < 2 ^ 53" by simp
    then have "real_of_int m < 2 ^ 53"
      by (metis of_int_less_iff of_int_numeral of_int_power)
    then have "?r < pow2 53 * pow2 e"
      by (simp add: p53)
    then have "?r < pow2 (e + 53)"
      by (simp add: pow2_add mult.commute)
    then have "ilog2 ?r < e + 53"
      using rpos by (intro ilog2_less)
    then have le: "max (ilog2 ?r - 52) (- 1074) \<le> e"
      using e by simp
    define d where "d = e - max (ilog2 ?r - 52) (- 1074)"
    have d: "0 \<le> d" using le by (simp add: d_def)
    have "?r / quantum ?r = of_int m * pow2 d"
      by (simp add: quantum_def d_def div_pow2)
    also have "\<dots> = of_int (m * 2 ^ nat d)"
      using d by (rule of_int_mult_pow2_int)
    finally show ?thesis
      by (simp only: floor_of_int)
  qed
  with rpos r show ?thesis
    by (simp add: representable_def)
qed

lemma rnd_mag_representable:
  assumes "0 \<le> a" and "rnd_mag a < 2 ^ 1024"
  shows "representable (rnd_mag a)"
proof (cases "a = 0")
  case True
  then show ?thesis by (simp add: rnd_mag_def round_half_even_def)
next
  case False
  with assms(1) have apos: "0 < a" by simp
  define e where "e = max (ilog2 a - 52) (- 1074)"
  define m where "m = round_half_even (a / pow2 e)"
  have q: "quantum a = pow2 e" by (simp add: quantum_def e_def)
  have r: "rnd_mag a = of_int m * pow2 e" by (simp add: rnd_mag_def q m_def)
  have e: "- 1074 \<le> e" "ilog2 a + 1 \<le> e + 53" by (simp_all add: e_def)
  have "a < pow2 (ilog2 a + 1)" using apos by (rule ilog2_bounds)
  also have "\<dots> \<le> pow2 (e + 53)" using e(2) by (rule pow2_mono)
  finally have "a < pow2 53 * pow2 e" by (simp add: pow2_add mult.commute)
  then have "a / pow2 e < pow2 53"
    by (simp add: pos_divide_less_eq)
  then have x: "a / pow2 e < of_int (2 ^ 53)"
    by (simp add: pow2_def)
  have "\<lfloor>a / pow2 e\<rfloor> < 2 ^ 53"
    using x by (simp only: floor_less_iff)
  then have mle: "m \<le> 2 ^ 53"
    unfolding m_def using round_half_even_bounds(2) [of "a / pow2 e"] by linarith
  have "0 \<le> a / pow2 e"
    using apos pow2_pos [of e] by (simp del: pow2_pos)
  then have "0 \<le> \<lfloor>a / pow2 e\<rfloor>"
    by simp
  then have mge: "0 \<le> m"
    unfolding m_def using round_half_even_bounds(1) [of "a / pow2 e"] by linarith
  show ?thesis
  proof (cases "m = 0")
    case True
    then show ?thesis by (simp add: r)
  next
    case False
    with mge have "0 < m" by simp
    then show ?thesis
      unfolding r using mle e(1) assms(2) [unfolded r] by (rule representable_grid)
  qed
qed

lemma is_double_rnd: "0 \<le> a \<Longrightarrow> is_double (rnd s a)"
  by (simp add: rnd_def Let_def rnd_mag_representable not_le)

lemma is_double_dadd [simp]: "is_double (dadd x y)"
  by (cases x; cases y) (simp_all add: Let_def is_double_rnd)

lemma representable_of_int:
  assumes "0 \<le> k" "k < 2 ^ 53"
  shows "representable (real_of_int k)"
proof (cases "k = 0")
  case True
  then show ?thesis by simp
next
  case False
  with assms have k: "0 < k" by simp
  have "real_of_int k * pow2 0 < 2 ^ 1024"
  proof -
    have "real_of_int k < 2 ^ 53"
      using assms(2) by (metis of_int_less_iff of_int_numeral of_int_power)
    also have "(2::real) ^ 53 < 2 ^ 1024" by simp
    finally show ?thesis by simp
  qed
  from representable_grid [OF k _ _ this] assms(2) show ?thesis by simp
qed

lemma Intersect_shape:
  "Intersect s1 s2 = nan_vec
   \<or> (\<exists>t. Intersect s1 s2 = vadd (start s1) (vscale (direction s1) t))"
  by (auto simp: Intersect_def collinear_overlap_def general_position_def Let_def)

lemma double_vec_nan_vec [simp]: "double_vec nan_vec"
  by (simp add: double_vec_def nan_vec_def vec_def)

lemma double_vec_vadd [simp]: "double_vec (vadd p q)"
  by (simp add: double_vec_def vadd_def vec_def)

lemma ddiv_by_zero: "\<not> is_finite (ddiv x (Fin s 0))"
  by (cases x) simp_all

section \<open>Parameters at the ends of the unit interval\<close>

lemma pow2_nonneg [simp]: "0 \<le> pow2 e"
  using pow2_pos [of e] by (simp only: less_imp_le)

lemma rnd_mag_nonneg: "0 \<le> a \<Longrightarrow> 0 \<le> rnd_mag a"
proof -
  assume "0 \<le> a"
  then have "0 \<le> a / quantum a" by (simp add: quantum_def)
  then have "0 \<le> \<lfloor>a / quantum a\<rfloor>" by simp
  then have "0 \<le> round_half_even (a / quantum a)"
    using round_half_even_bounds(1) [of "a / quantum a"] by linarith
  then show ?thesis by (simp add: rnd_mag_def quantum_def)
qed

lemma rnd_mag_ge_one:
  assumes "1 \<le> a"
  shows "1 \<le> rnd_mag a"
proof -
  define e where "e = max (ilog2 a - 52) (- 1074)"
  define m where "m = round_half_even (a / pow2 e)"
  have r: "rnd_mag a = of_int m * pow2 e"
    by (simp add: rnd_mag_def quantum_def e_def m_def)
  have apos: "0 < a" using assms by simp
  have il: "0 \<le> ilog2 a"
    using apos assms by (intro ilog2_ge) simp_all
  show ?thesis
  proof (cases "e \<le> 0")
    case True
    have "pow2 (- e) * pow2 e = 1"
      using pow2_add [of "- e" e] by simp
    have inv: "1 / pow2 e = pow2 (- e)"
      by (simp add: pow2_powi power_int_minus_divide)
    have "pow2 (- e) = of_int (2 ^ nat (- e))"
      using True by (simp add: pow2_nat)
    moreover have "pow2 (- e) \<le> a / pow2 e"
    proof -
      have "a / pow2 e = a * (1 / pow2 e)" by simp
      also have "\<dots> = a * pow2 (- e)" by (simp only: inv)
      finally have "a / pow2 e = a * pow2 (- e)" .
      moreover have "1 * pow2 (- e) \<le> a * pow2 (- e)"
        using assms by (intro mult_right_mono) simp_all
      ultimately show ?thesis by simp
    qed
    ultimately have "2 ^ nat (- e) \<le> \<lfloor>a / pow2 e\<rfloor>"
      by (simp add: le_floor_iff)
    then have "2 ^ nat (- e) \<le> m"
      unfolding m_def using round_half_even_bounds(1) [of "a / pow2 e"] by linarith
    then have "real_of_int (2 ^ nat (- e)) \<le> of_int m"
      by (simp only: of_int_le_iff)
    then have "pow2 (- e) \<le> of_int m"
      using True by (simp add: pow2_nat)
    then have "pow2 (- e) * pow2 e \<le> of_int m * pow2 e"
      by (simp add: mult_right_mono)
    then show ?thesis
      using \<open>pow2 (- e) * pow2 e = 1\<close> by (simp add: r)
  next
    case False
    then have e: "e = ilog2 a - 52" "0 < e" by (simp_all add: e_def max_def split: if_splits)
    have "pow2 (e + 52) \<le> a"
      using ilog2_bounds(1) [OF apos] e(1) by simp
    then have "pow2 52 * pow2 e \<le> a"
      by (simp add: pow2_add mult.commute)
    then have "pow2 52 \<le> a / pow2 e"
      by (simp add: pos_le_divide_eq)
    moreover have "(1::real) \<le> pow2 52" by (simp add: pow2_def)
    ultimately have "1 \<le> a / pow2 e" by (rule order_trans [rotated])
    then have "1 \<le> \<lfloor>a / pow2 e\<rfloor>"
      by (simp only: le_floor_iff of_int_1)
    then have "1 \<le> m"
      unfolding m_def using round_half_even_bounds(1) [of "a / pow2 e"] by linarith
    then have "(1::real) \<le> of_int m" by simp
    moreover have "1 \<le> pow2 e"
      using pow2_mono [of 0 e] e(2) by simp
    ultimately have "1 * 1 \<le> of_int m * pow2 e"
      by (intro mult_mono) simp_all
    then show ?thesis by (simp add: r)
  qed
qed

lemma rnd_at_least_one: "1 \<le> a \<Longrightarrow> at_least_one (rnd False a)"
  by (simp add: rnd_def Let_def at_least_one_def rnd_mag_ge_one)

lemma rnd_at_most_zero: "0 \<le> a \<Longrightarrow> at_most_zero (rnd True a)"
  by (auto simp: rnd_def Let_def at_most_zero_def rnd_mag_nonneg)

lemma is_zero_at_most_zero: "is_zero x \<Longrightarrow> at_most_zero x"
  by (cases x) (simp_all add: at_most_zero_def)

lemma overlap_touch_end:
  assumes "t0 = one \<and> at_least_one t1 \<or> at_least_one t0 \<and> t1 = one"
  shows "(let lo = (if dgt t0 t1 then t1 else t0);
              hi = (if dgt t0 t1 then t0 else t1);
              t_start = dmax zero lo;
              t_end = dmin one hi
          in if dgt t_start t_end then nan_vec else vadd P1 (vscale u t_start))
         = vadd P1 (vscale u one)"
  using assms
  by (auto simp: Let_def at_least_one_def dgt_def dmax_def dmin_def zero_def one_def sval_def)

lemma overlap_touch_start:
  assumes "at_most_zero t0" "at_most_zero t1" "is_zero t0 \<or> is_zero t1"
  shows "(let lo = (if dgt t0 t1 then t1 else t0);
              hi = (if dgt t0 t1 then t0 else t1);
              t_start = dmax zero lo;
              t_end = dmin one hi
          in if dgt t_start t_end then nan_vec else vadd P1 (vscale u t_start))
         = vadd P1 (vscale u zero)"
  using assms
  by (cases t0; cases t1)
     (auto simp: Let_def at_most_zero_def dgt_def dmax_def dmin_def zero_def one_def sval_def
           split: if_splits)

lemma Intersect_collinear_branch:
  assumes "zero_vec (cross_product (direction s2) (direction s1))"
    and "zero_vec (cross_product (direction s1) (vsub (start s1) (start s2)))"
  shows "Intersect s1 s2 = collinear_overlap (start s1) (direction s1) (start s2) (endp s2)"
proof -
  have par: "dlt (dabs (length_v (cross_product (direction s2) (direction s1)))) eps"
    using assms(1) by (simp add: length_zero_vec dlt_zero_eps)
  have z: "is_zero zero" by (simp add: zero_def)
  have "length_v (cross_product (direction s1) (vsub (start s1) (start s2))) = zero"
    using assms(2) by (rule length_zero_vec)
  with z have "\<not> dgt (ddiv (length_v (cross_product (direction s1) (vsub (start s1) (start s2))))
                         (length_v (direction s1))) zero"
    by (simp add: zn_not_dgt_zero zn_ddiv_any)
  with par show ?thesis
    by (simp add: Intersect_def Let_def)
qed

section \<open>Rounding is monotone\<close>

lemma round_half_even_mono:
  assumes "x \<le> y"
  shows "round_half_even x \<le> round_half_even y"
proof (cases "\<lfloor>x\<rfloor> = \<lfloor>y\<rfloor>")
  case True
  have "x - of_int \<lfloor>x\<rfloor> \<le> y - of_int \<lfloor>y\<rfloor>"
    using assms True by simp
  then show ?thesis
    using True by (auto simp: round_half_even_def Let_def)
next
  case False
  have "\<lfloor>x\<rfloor> \<le> \<lfloor>y\<rfloor>" using assms by (rule floor_mono)
  with False have "\<lfloor>x\<rfloor> + 1 \<le> \<lfloor>y\<rfloor>" by simp
  then show ?thesis
    using round_half_even_bounds(2) [of x] round_half_even_bounds(1) [of y] by linarith
qed

lemma round_half_even_le_int: "x \<le> of_int n \<Longrightarrow> round_half_even x \<le> n"
  using round_half_even_mono [of x "of_int n"] by simp

lemma round_half_even_ge_int: "of_int n \<le> x \<Longrightarrow> n \<le> round_half_even x"
  using round_half_even_mono [of "of_int n" x] by simp

lemma pow2_div_int:
  assumes "e \<le> k"
  shows "pow2 k / pow2 e = of_int (2 ^ nat (k - e))"
  using assms by (simp add: pow2_diff [symmetric] pow2_nat)

lemma pow2_mult_int:
  assumes "e \<le> k"
  shows "of_int (2 ^ nat (k - e)) * pow2 e = pow2 k"
proof -
  have "pow2 (k - e) = of_int (2 ^ nat (k - e))"
    using assms by (intro pow2_nat) simp
  moreover have "pow2 (k - e) * pow2 e = pow2 k"
    by (simp add: pow2_add [symmetric])
  ultimately show ?thesis by simp
qed

lemma rnd_mag_le_pow2:
  assumes "a \<le> pow2 k" and "max (ilog2 a - 52) (- 1074) \<le> k"
  shows "rnd_mag a \<le> pow2 k"
proof -
  define e where "e = max (ilog2 a - 52) (- 1074)"
  have "a / pow2 e \<le> pow2 k / pow2 e"
    using assms(1) by (simp add: divide_right_mono)
  also have "\<dots> = of_int (2 ^ nat (k - e))"
    using assms(2) by (simp add: e_def pow2_div_int)
  finally have "round_half_even (a / pow2 e) \<le> 2 ^ nat (k - e)"
    by (rule round_half_even_le_int)
  then have "real_of_int (round_half_even (a / pow2 e)) \<le> of_int (2 ^ nat (k - e))"
    by (simp only: of_int_le_iff)
  then have "of_int (round_half_even (a / pow2 e)) * pow2 e \<le> of_int (2 ^ nat (k - e)) * pow2 e"
    by (intro mult_right_mono) simp_all
  also have "of_int (2 ^ nat (k - e)) * pow2 e = pow2 k"
    using assms(2) unfolding e_def [symmetric] by (rule pow2_mult_int)
  finally show ?thesis
    unfolding rnd_mag_def quantum_def e_def .
qed

lemma rnd_mag_ge_pow2:
  assumes "pow2 k \<le> a" and "max (ilog2 a - 52) (- 1074) \<le> k"
  shows "pow2 k \<le> rnd_mag a"
proof -
  define e where "e = max (ilog2 a - 52) (- 1074)"
  have "pow2 k / pow2 e \<le> a / pow2 e"
    using assms(1) by (simp add: divide_right_mono)
  moreover have "pow2 k / pow2 e = of_int (2 ^ nat (k - e))"
    using assms(2) by (simp add: e_def pow2_div_int)
  ultimately have "of_int (2 ^ nat (k - e)) \<le> a / pow2 e" by simp
  then have "2 ^ nat (k - e) \<le> round_half_even (a / pow2 e)"
    by (rule round_half_even_ge_int)
  then have "real_of_int (2 ^ nat (k - e)) \<le> of_int (round_half_even (a / pow2 e))"
    by (simp only: of_int_le_iff)
  then have "of_int (2 ^ nat (k - e)) * pow2 e \<le> of_int (round_half_even (a / pow2 e)) * pow2 e"
    by (intro mult_right_mono) simp_all
  moreover have "of_int (2 ^ nat (k - e)) * pow2 e = pow2 k"
    using assms(2) unfolding e_def [symmetric] by (rule pow2_mult_int)
  ultimately have "pow2 k \<le> of_int (round_half_even (a / pow2 e)) * pow2 e"
    by (simp only:)
  then show ?thesis
    unfolding rnd_mag_def quantum_def e_def .
qed

lemma ilog2_mono:
  assumes "0 < a" "a \<le> b"
  shows "ilog2 a \<le> ilog2 b"
proof -
  have "pow2 (ilog2 a) \<le> b"
    using ilog2_bounds(1) [OF assms(1)] assms(2) by simp
  moreover have "0 < b" using assms by simp
  ultimately show ?thesis by (intro ilog2_ge)
qed

lemma rnd_mag_mono:
  assumes "0 \<le> a" "a \<le> b"
  shows "rnd_mag a \<le> rnd_mag b"
proof (cases "a = 0")
  case True
  then show ?thesis using rnd_mag_nonneg [of b] assms by simp
next
  case False
  with assms have apos: "0 < a" and bpos: "0 < b" by simp_all
  define ea where "ea = max (ilog2 a - 52) (- 1074)"
  define eb where "eb = max (ilog2 b - 52) (- 1074)"
  have kk: "ilog2 a \<le> ilog2 b" using apos assms(2) by (rule ilog2_mono)
  show ?thesis
  proof (cases "ea = eb")
    case True
    have "a / pow2 ea \<le> b / pow2 ea"
      using assms(2) by (simp add: divide_right_mono)
    then have "round_half_even (a / pow2 ea) \<le> round_half_even (b / pow2 ea)"
      by (rule round_half_even_mono)
    then have "real_of_int (round_half_even (a / pow2 ea))
               \<le> of_int (round_half_even (b / pow2 ea))"
      by (simp only: of_int_le_iff)
    then have "of_int (round_half_even (a / pow2 ea)) * pow2 ea
               \<le> of_int (round_half_even (b / pow2 ea)) * pow2 ea"
      by (intro mult_right_mono) simp_all
    then have "of_int (round_half_even (a / pow2 ea)) * pow2 ea
               \<le> of_int (round_half_even (b / pow2 eb)) * pow2 eb"
      using True by simp
    then show ?thesis
      unfolding rnd_mag_def quantum_def ea_def eb_def .
  next
    case False
    with kk have lt: "ea < eb" by (auto simp: ea_def eb_def)
    then have eb: "eb = ilog2 b - 52" by (auto simp: ea_def eb_def max_def split: if_splits)
    have "ilog2 a - 52 \<le> ea" by (simp add: ea_def)
    with lt eb have k1: "ilog2 a + 1 \<le> ilog2 b" by simp
    have "a < pow2 (ilog2 a + 1)" using apos by (rule ilog2_bounds)
    also have "\<dots> \<le> pow2 (ilog2 b)" using k1 by (rule pow2_mono)
    finally have "a \<le> pow2 (ilog2 b)" by simp
    moreover have "ea \<le> ilog2 b" using lt eb by simp
    ultimately have "rnd_mag a \<le> pow2 (ilog2 b)"
      unfolding ea_def by (rule rnd_mag_le_pow2)
    also have "pow2 (ilog2 b) \<le> rnd_mag b"
    proof (rule rnd_mag_ge_pow2)
      show "pow2 (ilog2 b) \<le> b" using bpos by (rule ilog2_bounds)
      show "max (ilog2 b - 52) (- 1074) \<le> ilog2 b"
        using eb by (simp add: eb_def)
    qed
    finally show ?thesis .
  qed
qed

section \<open>Values of finite doubles\<close>

lemma fin_doubleE:
  assumes "fin_double x"
  obtains s a where "x = Fin s a" "representable a" "0 \<le> a"
  using assms by (cases x) (auto simp: fin_double_def representable_def)

lemma fin_double_Fin: "fin_double (Fin s a) \<longleftrightarrow> representable a"
  by (simp add: fin_double_def)

lemma fin_double_sign:
  assumes "fin_double x" "val x \<noteq> 0"
  shows "x = Fin (val x < 0) \<bar>val x\<bar>"
  using assms by (cases x) (auto simp: fin_double_def representable_def sval_def split: if_splits)

lemma fin_double_zero:
  assumes "fin_double x" "val x = 0"
  shows "is_zero x"
  using assms by (cases x) (auto simp: fin_double_def sval_def split: if_splits)

lemma fin_double_deq:
  assumes "fin_double x" "fin_double y" "val x = val y"
  shows "deq x y"
  using assms by (cases x; cases y) (auto simp: fin_double_def)

lemma srnd_0 [simp]: "srnd 0 = 0"
  by (simp add: srnd_def rnd_mag_0)

lemma srnd_mono:
  assumes "r \<le> r'"
  shows "srnd r \<le> srnd r'"
proof -
  consider "r' < 0" | "r < 0" "0 \<le> r'" | "0 \<le> r" using assms by linarith
  then show ?thesis
  proof cases
    case 1
    then have "rnd_mag (- r') \<le> rnd_mag (- r)"
      using assms by (intro rnd_mag_mono) simp_all
    then show ?thesis using 1 assms by (simp add: srnd_def)
  next
    case 2
    have "0 \<le> rnd_mag (- r)" using 2 by (intro rnd_mag_nonneg) simp
    moreover have "0 \<le> rnd_mag r'" using 2 by (intro rnd_mag_nonneg)
    ultimately show ?thesis using 2 by (simp add: srnd_def)
  next
    case 3
    then have "rnd_mag r \<le> rnd_mag r'"
      using assms by (intro rnd_mag_mono) simp_all
    then show ?thesis using 3 assms by (simp add: srnd_def)
  qed
qed

lemma rnd_mag_id: "representable a \<Longrightarrow> rnd_mag a = a"
  using rnd_representable [of a False] rnd_cases [of False a]
  by (auto simp: rnd_def Let_def split: if_splits)

lemma srnd_representable: "representable \<bar>r\<bar> \<Longrightarrow> srnd r = r"
  by (auto simp: srnd_def rnd_mag_id abs_if split: if_splits)

lemma srnd_nonneg: "0 \<le> r \<Longrightarrow> 0 \<le> srnd r"
  using srnd_mono [of 0 r] by simp

lemma srnd_nonpos: "r \<le> 0 \<Longrightarrow> srnd r \<le> 0"
  using srnd_mono [of r 0] by simp

lemma representable_pow2:
  assumes "- 1074 \<le> k" "k \<le> 1023"
  shows "representable (pow2 k)"
proof -
  have "pow2 k < pow2 1024" using assms(2) by (intro pow2_strict_mono) simp
  then have "of_int 1 * pow2 k < 2 ^ 1024" by (simp add: pow2_numeral_1024)
  then have "representable (of_int 1 * pow2 k)"
    using assms(1) by (intro representable_grid) simp_all
  then show ?thesis by simp
qed

lemma abs_srnd: "\<bar>srnd r\<bar> = rnd_mag \<bar>r\<bar>"
proof (cases "r < 0")
  case True
  then have "0 \<le> rnd_mag (- r)" by (intro rnd_mag_nonneg) simp
  then show ?thesis using True by (simp add: srnd_def)
next
  case False
  then have "0 \<le> rnd_mag r" by (intro rnd_mag_nonneg) simp
  then show ?thesis using False by (simp add: srnd_def)
qed

lemma rnd_mag_bound:
  assumes "0 \<le> a" "a \<le> B" "representable B"
  shows "rnd_mag a \<le> B"
  using rnd_mag_mono [OF assms(1,2)] rnd_mag_id [OF assms(3)] by simp

lemma srnd_bound:
  assumes "\<bar>r\<bar> \<le> B" "representable B"
  shows "\<bar>srnd r\<bar> \<le> B"
  unfolding abs_srnd using assms by (intro rnd_mag_bound) simp_all

lemma rnd_bounded:
  assumes "0 \<le> a" "a \<le> B" "representable B"
  shows "rnd s a = Fin s (rnd_mag a)" "representable (rnd_mag a)"
proof -
  have "rnd_mag a \<le> B" using assms by (rule rnd_mag_bound)
  then have lt: "rnd_mag a < 2 ^ 1024" using assms(3) by (simp add: representable_def)
  then show "rnd s a = Fin s (rnd_mag a)" by (simp add: rnd_def Let_def)
  show "representable (rnd_mag a)" using assms(1) lt by (rule rnd_mag_representable)
qed

lemma dmul_val:
  assumes "fin_double x" "fin_double y"
    and "\<bar>val x * val y\<bar> \<le> B" "representable B"
  shows "fin_double (dmul x y)" "val (dmul x y) = srnd (val x * val y)"
proof -
  obtain s a where x: "x = Fin s a" "representable a" "0 \<le> a"
    using assms(1) by (rule fin_doubleE)
  obtain t b where y: "y = Fin t b" "representable b" "0 \<le> b"
    using assms(2) by (rule fin_doubleE)
  have ab: "0 \<le> a * b" using x y by simp
  have "\<bar>val x * val y\<bar> = a * b"
    using x y by (simp add: sval_def abs_mult)
  then have le: "a * b \<le> B" using assms(3) by simp
  note r = rnd_bounded [OF ab le assms(4)]
  show "fin_double (dmul x y)"
    using r by (simp add: x y fin_double_Fin)
  show "val (dmul x y) = srnd (val x * val y)"
  proof (cases "a * b = 0")
    case True
    then show ?thesis using r(1) by (auto simp: x y sval_def rnd_mag_0)
  next
    case False
    then have "a * b \<noteq> 0" .
    with ab have pos: "0 < a * b" by (simp only: less_le) simp
    have v: "val x * val y = sval (s \<noteq> t) (a * b)"
      by (auto simp: x y sval_def)
    show ?thesis
      unfolding v using r(1) pos by (simp add: x y sval_def srnd_def)
  qed
qed

lemma dadd_val:
  assumes "fin_double x" "fin_double y"
    and "\<bar>val x + val y\<bar> \<le> B" "representable B"
  shows "fin_double (dadd x y)" "val (dadd x y) = srnd (val x + val y)"
proof -
  obtain s a where x: "x = Fin s a" "representable a" "0 \<le> a"
    using assms(1) by (rule fin_doubleE)
  obtain t b where y: "y = Fin t b" "representable b" "0 \<le> b"
    using assms(2) by (rule fin_doubleE)
  define r where "r = sval s a + sval t b"
  have le: "\<bar>r\<bar> \<le> B" using assms(3) by (simp add: x y r_def)
  have r0: "0 \<le> \<bar>r\<bar>" by simp
  note rb = rnd_bounded [OF r0 le assms(4)]
  have d: "dadd x y = (if r = 0 then Fin (s \<and> t) 0 else rnd (r < 0) \<bar>r\<bar>)"
    by (simp add: x y r_def Let_def)
  show "fin_double (dadd x y)"
    unfolding d using rb by (simp add: fin_double_Fin)
  have v: "val x + val y = r" by (simp add: x y r_def)
  show "val (dadd x y) = srnd (val x + val y)"
    unfolding d v using rb(1) by (cases "r < 0") (simp_all add: sval_def srnd_def)
qed

lemma dadd_exact:
  assumes "fin_double x" "fin_double y" "representable \<bar>val x + val y\<bar>"
  shows "fin_double (dadd x y)" "val (dadd x y) = val x + val y"
proof -
  obtain s a where x: "x = Fin s a" "representable a" "0 \<le> a"
    using assms(1) by (rule fin_doubleE)
  obtain t b where y: "y = Fin t b" "representable b" "0 \<le> b"
    using assms(2) by (rule fin_doubleE)
  define r where "r = sval s a + sval t b"
  have rep: "representable \<bar>r\<bar>" using assms(3) by (simp add: x y r_def)
  have d: "dadd x y = (if r = 0 then Fin (s \<and> t) 0 else Fin (r < 0) \<bar>r\<bar>)"
    using rnd_representable [OF rep] by (simp add: x y r_def Let_def)
  show "fin_double (dadd x y)"
    unfolding d using rep by (simp add: fin_double_Fin)
  have v: "val x + val y = r" by (simp add: x y r_def)
  show "val (dadd x y) = val x + val y"
    unfolding d v by (cases "r < 0") (simp_all add: sval_def)
qed

lemma fin_double_dneg: "fin_double x \<Longrightarrow> fin_double (dneg x)"
  by (cases x) (simp_all add: fin_double_def)

lemma val_dneg: "val (dneg x) = - val x"
  by (cases x) (simp_all add: sval_def)

lemma dsub_exact:
  assumes "fin_double x" "fin_double y" "representable \<bar>val x - val y\<bar>"
  shows "fin_double (dsub x y)" "val (dsub x y) = val x - val y"
  using dadd_exact [of x "dneg y"] assms
  by (simp_all add: dsub_def fin_double_dneg val_dneg)

lemma dsub_equal_val:
  assumes "fin_double x" "fin_double y" "val x = val y"
  shows "is_zero (dsub x y)"
proof -
  have "representable \<bar>val x - val y\<bar>" using assms(3) by simp
  then have "fin_double (dsub x y)" "val (dsub x y) = 0"
    using dsub_exact [OF assms(1,2)] assms(3) by simp_all
  then show ?thesis by (rule fin_double_zero)
qed

lemma fin_double_pos:
  assumes "fin_double y" "0 < val y"
  obtains b where "y = Fin False b" "0 < b"
  using assms by (cases y) (auto simp: fin_double_def representable_def sval_def split: if_splits)

lemma ddiv_cases:
  assumes "fin_double x" "fin_double y" "0 < val y"
  shows "val x = val y \<Longrightarrow> ddiv x y = one"
    and "val y \<le> val x \<Longrightarrow> at_least_one (ddiv x y)"
    and "val x \<le> 0 \<Longrightarrow> at_most_zero (ddiv x y)"
    and "val x = 0 \<Longrightarrow> is_zero (ddiv x y)"
proof -
  obtain b where y: "y = Fin False b" "0 < b"
    using assms(2,3) by (rule fin_double_pos)
  obtain s a where x: "x = Fin s a" "representable a" "0 \<le> a"
    using assms(1) by (rule fin_doubleE)
  have "b \<noteq> 0" using y(2) by simp
  then have d: "ddiv x y = rnd s (a / b)"
    by (simp add: x(1) y(1))
  {
    assume "val x = val y"
    then have "a = b \<and> \<not> s"
      using x(3) y(2) by (auto simp: x(1) y(1) sval_def split: if_splits)
    then show "ddiv x y = one"
      unfolding d using y(2) by (simp add: rnd_one one_def)
  }
  {
    assume "val y \<le> val x"
    then have "b \<le> a \<and> \<not> s"
      using x(3) y(2) by (auto simp: x(1) y(1) sval_def split: if_splits)
    moreover from this have "1 \<le> a / b" using y(2) by simp
    ultimately show "at_least_one (ddiv x y)"
      unfolding d using rnd_at_least_one [of "a / b"] by simp
  }
  {
    assume le: "val x \<le> 0"
    show "at_most_zero (ddiv x y)"
    proof (cases "a = 0")
      case True
      then show ?thesis unfolding d by (simp add: at_most_zero_def)
    next
      case False
      then have "s" using le x(3) by (auto simp: x(1) sval_def split: if_splits)
      moreover have "0 \<le> a / b" using x(3) y(2) by simp
      ultimately show ?thesis unfolding d using rnd_at_most_zero [of "a / b"] by simp
    qed
  }
  {
    assume "val x = 0"
    then have "a = 0" using x(3) by (auto simp: x(1) sval_def split: if_splits)
    then show "is_zero (ddiv x y)" unfolding d by simp
  }
qed

section \<open>Collinear vectors with exact coordinates\<close>

lemma pow2_511: "pow2 511 = 2 ^ 511"
  by (simp add: pow2_def)

lemma pow2_m1074: "pow2 (- 1074) = (1 / 2 ^ 537) * (1 / 2 ^ 537)"
  using pow2_add [of "- 537" "- 537"] by (simp add: pow2_def)

lemma pow2_1: "pow2 1 = 2"
  by (simp add: pow2_def)

lemma pow2_double: "pow2 k + pow2 k = pow2 (k + 1)"
  unfolding pow2_add pow2_1 by simp

lemma vsub_vals:
  assumes "fin_vec A" "fin_vec B" "exact_diff A B"
  shows "vals (vsub A B) (val (X A) - val (X B)) (val (Y A) - val (Y B)) (val (Z A) - val (Z B))"
  using assms
  by (simp add: vals_def fin_vec_def exact_diff_def exact1_def vsub_def vec_def dsub_exact)

lemma dmul_bounded:
  assumes "fin_double x" "fin_double y" "\<bar>val x\<bar> \<le> pow2 511" "\<bar>val y\<bar> \<le> pow2 511"
  shows "fin_double (dmul x y)" "val (dmul x y) = srnd (val x * val y)"
    "\<bar>val x * val y\<bar> \<le> pow2 1022"
proof -
  have "\<bar>val x\<bar> * \<bar>val y\<bar> \<le> pow2 511 * pow2 511"
    using assms(3,4) by (intro mult_mono) simp_all
  then show b: "\<bar>val x * val y\<bar> \<le> pow2 1022"
    using pow2_add [of 511 511] by (simp add: abs_mult)
  have "representable (pow2 1022)" by (intro representable_pow2) simp_all
  from dmul_val [OF assms(1,2) b this]
  show "fin_double (dmul x y)" "val (dmul x y) = srnd (val x * val y)"
    by simp_all
qed

lemma cross_component_zero:
  assumes "fin_double a" "fin_double b" "fin_double c" "fin_double d"
    and "\<bar>val a\<bar> \<le> pow2 511" "\<bar>val b\<bar> \<le> pow2 511"
    and "\<bar>val c\<bar> \<le> pow2 511" "\<bar>val d\<bar> \<le> pow2 511"
    and "val a * val b = val c * val d"
  shows "is_zero (dsub (dmul a b) (dmul c d))"
proof (rule dsub_equal_val)
  show "fin_double (dmul a b)" using assms by (intro dmul_bounded)
  show "fin_double (dmul c d)" using assms by (intro dmul_bounded)
  have "val (dmul a b) = srnd (val a * val b)" using assms by (intro dmul_bounded)
  moreover have "val (dmul c d) = srnd (val c * val d)" using assms by (intro dmul_bounded)
  ultimately show "val (dmul a b) = val (dmul c d)" using assms(9) by simp
qed

lemma cross_zero_collinear:
  assumes "bounded_vec a" "bounded_vec b"
    and "val (Y a) * val (Z b) = val (Z a) * val (Y b)"
    and "val (X a) * val (Z b) = val (Z a) * val (X b)"
    and "val (X a) * val (Y b) = val (Y a) * val (X b)"
  shows "zero_vec (cross_product a b)"
  using assms
  by (simp add: zero_vec_def cross_product_def vec_def bounded_vec_def fin_vec_def
        cross_component_zero is_zero_dneg)

lemma fl_dot_mono:
  assumes "b1 * a1 \<le> d1 * c1" "b2 * a2 \<le> d2 * c2" "b3 * a3 \<le> d3 * c3"
  shows "fl_dot a1 a2 a3 b1 b2 b3 \<le> fl_dot c1 c2 c3 d1 d2 d3"
  unfolding fl_dot_def using assms by (intro srnd_mono add_mono)

lemma fl_dot_zero: "fl_dot 0 0 0 b1 b2 b3 = 0"
  by (simp add: fl_dot_def)

lemma fl_dot_ge:
  assumes k: "- 1074 \<le> k" "k \<le> 1023"
    and "pow2 k \<le> u1 * u1 \<or> pow2 k \<le> u2 * u2 \<or> pow2 k \<le> u3 * u3"
  shows "pow2 k \<le> fl_dot u1 u2 u3 u1 u2 u3"
proof -
  have id: "srnd (pow2 k) = pow2 k"
    using representable_pow2 [OF k] by (intro srnd_representable) simp
  have ge: "pow2 k \<le> srnd x" if "pow2 k \<le> x" for x
    using srnd_mono [OF that] id by simp
  have n1: "0 \<le> srnd (u1 * u1)" by (intro srnd_nonneg) simp
  have n2: "0 \<le> srnd (u2 * u2)" by (intro srnd_nonneg) simp
  have n3: "0 \<le> srnd (u3 * u3)" by (intro srnd_nonneg) simp
  have n12: "0 \<le> srnd (srnd (u1 * u1) + srnd (u2 * u2))"
    using n1 n2 by (intro srnd_nonneg) simp
  from assms(3) consider "pow2 k \<le> u1 * u1" | "pow2 k \<le> u2 * u2" | "pow2 k \<le> u3 * u3"
    by blast
  then show ?thesis
  proof cases
    case 1
    then have "pow2 k \<le> srnd (u1 * u1)" by (rule ge)
    then have "pow2 k \<le> srnd (u1 * u1) + srnd (u2 * u2)" using n2 by simp
    then have "pow2 k \<le> srnd (srnd (u1 * u1) + srnd (u2 * u2))" by (rule ge)
    then have "pow2 k \<le> srnd (srnd (u1 * u1) + srnd (u2 * u2)) + srnd (u3 * u3)"
      using n3 by simp
    then show ?thesis unfolding fl_dot_def by (rule ge)
  next
    case 2
    then have "pow2 k \<le> srnd (u2 * u2)" by (rule ge)
    then have "pow2 k \<le> srnd (u1 * u1) + srnd (u2 * u2)" using n1 by simp
    then have "pow2 k \<le> srnd (srnd (u1 * u1) + srnd (u2 * u2))" by (rule ge)
    then have "pow2 k \<le> srnd (srnd (u1 * u1) + srnd (u2 * u2)) + srnd (u3 * u3)"
      using n3 by simp
    then show ?thesis unfolding fl_dot_def by (rule ge)
  next
    case 3
    then have "pow2 k \<le> srnd (u3 * u3)" by (rule ge)
    then have "pow2 k \<le> srnd (srnd (u1 * u1) + srnd (u2 * u2)) + srnd (u3 * u3)"
      using n12 by simp
    then show ?thesis unfolding fl_dot_def by (rule ge)
  qed
qed

lemma dot_vals:
  assumes "bounded_vec a" "bounded_vec b"
  shows "fin_double (dot_product a b)"
    and "val (dot_product a b)
         = fl_dot (val (X a)) (val (Y a)) (val (Z a)) (val (X b)) (val (Y b)) (val (Z b))"
proof -
  have f: "fin_double (X a)" "fin_double (Y a)" "fin_double (Z a)"
      "fin_double (X b)" "fin_double (Y b)" "fin_double (Z b)"
    and ba: "\<bar>val (X a)\<bar> \<le> pow2 511" "\<bar>val (Y a)\<bar> \<le> pow2 511" "\<bar>val (Z a)\<bar> \<le> pow2 511"
    and bb: "\<bar>val (X b)\<bar> \<le> pow2 511" "\<bar>val (Y b)\<bar> \<le> pow2 511" "\<bar>val (Z b)\<bar> \<le> pow2 511"
    using assms by (simp_all add: bounded_vec_def fin_vec_def)
  note m1 = dmul_bounded [OF f(4) f(1) bb(1) ba(1)]
  note m2 = dmul_bounded [OF f(5) f(2) bb(2) ba(2)]
  note m3 = dmul_bounded [OF f(6) f(3) bb(3) ba(3)]
  have r0: "representable (pow2 1022)" by (intro representable_pow2) simp_all
  have r1: "representable (pow2 1023)" by (intro representable_pow2) simp_all
  have p23: "pow2 1023 = 2 * pow2 1022" using pow2_double [of 1022] by simp
  have p24: "2 * pow2 1023 = 2 ^ 1024"
    using pow2_double [of 1023] by (simp add: pow2_numeral_1024)
  have "of_int 3 * pow2 1022 < 2 ^ 1024" using p23 p24 pow2_pos [of 1022] by simp
  then have "representable (of_int 3 * pow2 1022)"
    by (intro representable_grid) simp_all
  then have r2: "representable (3 * pow2 1022)" by simp
  have s1: "\<bar>val (dmul (X b) (X a))\<bar> \<le> pow2 1022"
    unfolding m1(2) using m1(3) r0 by (rule srnd_bound)
  have s2: "\<bar>val (dmul (Y b) (Y a))\<bar> \<le> pow2 1022"
    unfolding m2(2) using m2(3) r0 by (rule srnd_bound)
  have s3: "\<bar>val (dmul (Z b) (Z a))\<bar> \<le> pow2 1022"
    unfolding m3(2) using m3(3) r0 by (rule srnd_bound)
  have b12: "\<bar>val (dmul (X b) (X a)) + val (dmul (Y b) (Y a))\<bar> \<le> pow2 1023"
    using s1 s2 p23 by linarith
  note a12 = dadd_val [OF m1(1) m2(1) b12 r1]
  have s12: "\<bar>val (dadd (dmul (X b) (X a)) (dmul (Y b) (Y a)))\<bar> \<le> pow2 1023"
    unfolding a12(2) using b12 r1 by (rule srnd_bound)
  have b123: "\<bar>val (dadd (dmul (X b) (X a)) (dmul (Y b) (Y a))) + val (dmul (Z b) (Z a))\<bar>
      \<le> 3 * pow2 1022"
    using s12 s3 p23 by linarith
  note a123 = dadd_val [OF a12(1) m3(1) b123 r2]
  show "fin_double (dot_product a b)"
    using a123(1) by (simp add: dot_product_def)
  show "val (dot_product a b)
         = fl_dot (val (X a)) (val (Y a)) (val (Z a)) (val (X b)) (val (Y b)) (val (Z b))"
    by (simp add: dot_product_def fl_dot_def a123(2) a12(2) m1(2) m2(2) m3(2))
qed

lemma fin_double_one: "fin_double one"
proof -
  have "representable (pow2 0)" by (intro representable_pow2) simp_all
  then show ?thesis by (simp add: one_def fin_double_Fin)
qed

lemma dmul_one: "fin_double x \<Longrightarrow> dmul x one = x"
  by (erule fin_doubleE) (simp add: one_def rnd_representable)

lemma representable_abs_val: "fin_double x \<Longrightarrow> representable \<bar>val x\<bar>"
  by (erule fin_doubleE) (simp add: sval_def)

lemma back_to_end:
  assumes "fin_double x" "fin_double y" "representable \<bar>val y - val x\<bar>"
  shows "fin_double (dadd x (dmul (dsub y x) one))"
    and "val (dadd x (dmul (dsub y x) one)) = val y"
proof -
  note u = dsub_exact [OF assms(2,1,3)]
  have m: "dmul (dsub y x) one = dsub y x" using u(1) by (rule dmul_one)
  have "representable \<bar>val x + val (dsub y x)\<bar>"
    using representable_abs_val [OF assms(2)] by (simp add: u(2))
  note a = dadd_exact [OF assms(1) u(1) this]
  show "fin_double (dadd x (dmul (dsub y x) one))" using a(1) by (simp add: m)
  show "val (dadd x (dmul (dsub y x) one)) = val y" using a(2) by (simp add: m u(2))
qed

lemma back_to_end_exact:
  assumes "fin_double x" "fin_double y" "representable \<bar>val y - val x\<bar>" "y \<noteq> Fin True 0"
  shows "dadd x (dmul (dsub y x) one) = y"
proof (cases "val y = 0")
  case False
  note b = back_to_end [OF assms(1-3)]
  have "dadd x (dmul (dsub y x) one) = Fin (val y < 0) \<bar>val y\<bar>"
    using fin_double_sign [OF b(1)] False by (simp add: b(2))
  also have "\<dots> = y" using fin_double_sign [OF assms(2) False] by simp
  finally show ?thesis .
next
  case True
  obtain t b where y: "y = Fin t b" "representable b" "0 \<le> b"
    using assms(2) by (rule fin_doubleE)
  have y0: "y = Fin False 0"
    using True assms(4) y(3) by (auto simp: y(1) sval_def split: if_splits)
  note u = dsub_exact [OF assms(2,1,3)]
  have m: "dmul (dsub y x) one = dsub y x" using u(1) by (rule dmul_one)
  obtain s a where x: "x = Fin s a" "representable a" "0 \<le> a"
    using assms(1) by (rule fin_doubleE)
  show ?thesis
  proof (cases "a = 0")
    case True
    have "dadd x (dmul (dsub y x) one) = dadd x (dsub y x)" by (simp only: m)
    also have "\<dots> = y" using True by (simp add: x(1) y0 dsub_def Let_def sval_def)
    finally show ?thesis .
  next
    case False
    then have d: "dsub y x = Fin (\<not> s) a"
      using x(2,3) by (auto simp: x(1) y0 dsub_def Let_def sval_def rnd_representable)
    have "dadd x (dmul (dsub y x) one) = dadd x (dsub y x)" by (simp only: m)
    also have "\<dots> = y" unfolding d by (auto simp: x(1) y0 Let_def sval_def)
    finally show ?thesis .
  qed
qed

lemma stay_at_start:
  assumes "fin_double x" "fin_double u"
  shows "fin_double (dadd x (dmul u zero))"
    and "val (dadd x (dmul u zero)) = val x"
    and "x \<noteq> Fin True 0 \<Longrightarrow> dadd x (dmul u zero) = x"
proof -
  obtain s a where u: "u = Fin s a" using assms(2) by (rule fin_doubleE)
  have m: "dmul u zero = Fin s 0" by (simp add: u zero_def)
  have f: "fin_double (Fin s 0)" by (simp add: fin_double_Fin)
  have "representable \<bar>val x + val (Fin s 0)\<bar>"
    using representable_abs_val [OF assms(1)] by (simp add: sval_def)
  note a = dadd_exact [OF assms(1) f this]
  show r1: "fin_double (dadd x (dmul u zero))" using a(1) by (simp add: m)
  show r2: "val (dadd x (dmul u zero)) = val x" using a(2) by (simp add: m sval_def)
  {
    assume nz: "x \<noteq> Fin True 0"
    show "dadd x (dmul u zero) = x"
    proof (cases "val x = 0")
      case False
      have "dadd x (dmul u zero) = Fin (val x < 0) \<bar>val x\<bar>"
        using fin_double_sign [OF r1] False by (simp add: r2)
      also have "\<dots> = x" using fin_double_sign [OF assms(1) False] by simp
      finally show ?thesis .
    next
      case True
      obtain t b where x: "x = Fin t b" "representable b" "0 \<le> b"
        using assms(1) by (rule fin_doubleE)
      have "x = Fin False 0"
        using True nz x(3) by (auto simp: x(1) sval_def split: if_splits)
      then show ?thesis by (simp add: m Let_def sval_def)
    qed
  }
qed

lemma sq_scale_ge: "1 \<le> \<mu> \<Longrightarrow> u * u \<le> u * (\<mu> * (u::real))"
proof -
  assume "1 \<le> \<mu>"
  then have "1 * (u * u) \<le> \<mu> * (u * u)" by (intro mult_right_mono) simp_all
  then show ?thesis by (simp add: mult.left_commute)
qed

lemma sq_scale_le: "\<mu> \<le> 0 \<Longrightarrow> u * (\<mu> * (u::real)) \<le> 0"
proof -
  assume "\<mu> \<le> 0"
  then have "\<mu> * (u * u) \<le> 0" by (intro mult_nonpos_nonneg) simp_all
  then show ?thesis by (simp add: mult.left_commute)
qed

lemma vsub_bounded:
  assumes "fin_vec A" "fin_vec B" "exact_diff A B"
  shows "bounded_vec (vsub A B)"
  using vsub_vals [OF assms] assms(3)
  by (simp add: vals_def bounded_vec_def exact_diff_def exact1_def pow2_511)

lemma exact_diff_sym: "exact_diff A B \<Longrightarrow> exact_diff B A"
  by (simp add: exact_diff_def exact1_def abs_minus_commute)

section \<open>A rounded difference to the far end point\<close>

lemma dsub_val:
  assumes "fin_double x" "fin_double y" "\<bar>val x - val y\<bar> \<le> B" "representable B"
  shows "fin_double (dsub x y)" "val (dsub x y) = srnd (val x - val y)"
  using dadd_val [of x "dneg y" B] assms
  by (simp_all add: dsub_def fin_double_dneg val_dneg)

lemma dadd_at_least:
  assumes "at_least x c" "at_least y d" "0 \<le> c" "0 \<le> d"
  shows "at_least (dadd x y) (srnd (c + d))"
proof (cases "x = Inf False \<or> y = Inf False")
  case True
  then show ?thesis
    using assms(1,2) by (cases x; cases y) (auto simp: at_least_def fin_double_def)
next
  case False
  then have fx: "fin_double x" "c \<le> val x" and fy: "fin_double y" "d \<le> val y"
    using assms(1,2) by (auto simp: at_least_def)
  obtain s a where x: "x = Fin s a" using fx(1) by (rule fin_doubleE)
  obtain t b where y: "y = Fin t b" using fy(1) by (rule fin_doubleE)
  define r where "r = val x + val y"
  have cd: "c + d \<le> r" using fx(2) fy(2) by (simp add: r_def)
  have r0: "0 \<le> r" using cd assms(3,4) by simp
  have d: "dadd x y = (if r = 0 then Fin (s \<and> t) 0 else rnd False r)"
    using r0 by (simp add: x y r_def Let_def)
  show ?thesis
  proof (cases "r = 0")
    case True
    then have "c + d = 0" using cd assms(3,4) by simp
    then show ?thesis using True by (simp add: d at_least_def fin_double_Fin sval_def)
  next
    case False
    show ?thesis
    proof (cases "2 ^ 1024 \<le> rnd_mag r")
      case True
      then show ?thesis using False by (simp add: d at_least_def rnd_def Let_def)
    next
      case big: False
      then have lt: "rnd_mag r < 2 ^ 1024" by simp
      have rep: "representable (rnd_mag r)" using r0 lt by (rule rnd_mag_representable)
      have "srnd (c + d) \<le> srnd r" using cd by (rule srnd_mono)
      also have "srnd r = rnd_mag r" using r0 by (simp add: srnd_def)
      finally show ?thesis
        using False lt rep by (simp add: d at_least_def rnd_def Let_def fin_double_Fin sval_def)
    qed
  qed
qed

lemma dadd_nonpos:
  assumes "nonpos x" "nonpos y"
  shows "nonpos (dadd x y)"
proof (cases "x = Inf True \<or> y = Inf True")
  case True
  then show ?thesis
    using assms by (cases x; cases y) (auto simp: nonpos_def fin_double_def)
next
  case False
  then have fx: "fin_double x" "val x \<le> 0" and fy: "fin_double y" "val y \<le> 0"
    using assms by (auto simp: nonpos_def)
  obtain s a where x: "x = Fin s a" using fx(1) by (rule fin_doubleE)
  obtain t b where y: "y = Fin t b" using fy(1) by (rule fin_doubleE)
  define r where "r = val x + val y"
  have r0: "r \<le> 0" using fx(2) fy(2) by (simp add: r_def)
  have d: "dadd x y = (if r = 0 then Fin (s \<and> t) 0 else rnd True (- r))"
    using r0 by (simp add: x y r_def Let_def)
  show ?thesis
  proof (cases "r = 0")
    case True
    then show ?thesis by (simp add: d nonpos_def fin_double_Fin sval_def)
  next
    case False
    then have pos: "0 \<le> - r" using r0 by simp
    show ?thesis
    proof (cases "2 ^ 1024 \<le> rnd_mag (- r)")
      case True
      then show ?thesis using False by (simp add: d nonpos_def rnd_def Let_def)
    next
      case big: False
      then have lt: "rnd_mag (- r) < 2 ^ 1024" by simp
      have rep: "representable (rnd_mag (- r))" using pos lt by (rule rnd_mag_representable)
      have "0 \<le> rnd_mag (- r)" using pos by (rule rnd_mag_nonneg)
      then show ?thesis
        using False lt rep by (simp add: d nonpos_def rnd_def Let_def fin_double_Fin sval_def)
    qed
  qed
qed

lemma ddiv_at_least:
  assumes "at_least x (val y)" "fin_double y" "0 < val y"
  shows "at_least_one (ddiv x y)"
proof (cases "x = Inf False")
  case True
  obtain b where "y = Fin False b" "0 < b" using assms(2,3) by (rule fin_double_pos)
  then show ?thesis using True by (simp add: at_least_one_def)
next
  case False
  then have "fin_double x" "val y \<le> val x" using assms(1) by (auto simp: at_least_def)
  then show ?thesis using assms(2,3) by (intro ddiv_cases(2))
qed

lemma ddiv_nonpos:
  assumes "nonpos x" "fin_double y" "0 < val y"
  shows "at_most_zero (ddiv x y)"
proof (cases "x = Inf True")
  case True
  obtain b where "y = Fin False b" "0 < b" using assms(2,3) by (rule fin_double_pos)
  then show ?thesis using True by (simp add: at_most_zero_def)
next
  case False
  then have "fin_double x" "val x \<le> 0" using assms(1) by (auto simp: nonpos_def)
  then show ?thesis using assms(2,3) by (intro ddiv_cases(3))
qed

lemma prod_rounded_ge:
  assumes "representable \<bar>u\<bar>" "1 \<le> l"
  shows "u * u \<le> u * srnd (l * u)"
proof (cases "0 \<le> u")
  case True
  then have "u \<le> l * u" using assms(2) by (simp add: mult_le_cancel_right1)
  then have "srnd u \<le> srnd (l * u)" by (rule srnd_mono)
  then have "u \<le> srnd (l * u)" using srnd_representable [OF assms(1)] by simp
  then show ?thesis using True by (rule mult_left_mono)
next
  case False
  then have "l * u \<le> u" using assms(2) by (simp add: mult_le_cancel_right2)
  then have "srnd (l * u) \<le> srnd u" by (rule srnd_mono)
  then have "srnd (l * u) \<le> u" using srnd_representable [OF assms(1)] by simp
  then show ?thesis using False by (intro mult_left_mono_neg) simp_all
qed

lemma prod_rounded_le:
  assumes "l \<le> 0"
  shows "u * srnd (l * u) \<le> 0"
proof (cases "0 \<le> u")
  case True
  then have "l * u \<le> 0" using assms by (simp add: mult_nonpos_nonneg)
  then have "srnd (l * u) \<le> 0" by (rule srnd_nonpos)
  then show ?thesis using True by (simp add: mult_nonneg_nonpos)
next
  case False
  then have "0 \<le> l * u" using assms by (simp add: mult_nonpos_nonpos)
  then have "0 \<le> srnd (l * u)" by (rule srnd_nonneg)
  then show ?thesis using False by (simp add: mult_nonpos_nonneg)
qed

lemma far_products:
  assumes "fin_double x" "fin_double y" "\<bar>val x\<bar> \<le> pow2 511" "\<bar>val y\<bar> \<le> pow2 512"
  shows "fin_double (dmul x y)" "val (dmul x y) = srnd (val x * val y)"
proof -
  have "\<bar>val x\<bar> * \<bar>val y\<bar> \<le> pow2 511 * pow2 512"
    using assms(3,4) by (intro mult_mono) simp_all
  then have b: "\<bar>val x * val y\<bar> \<le> pow2 1023"
    using pow2_add [of 511 512] by (simp add: abs_mult)
  have "representable (pow2 1023)" by (intro representable_pow2) simp_all
  from dmul_val [OF assms(1,2) b this]
  show "fin_double (dmul x y)" "val (dmul x y) = srnd (val x * val y)"
    by simp_all
qed

lemma far_dot_at_least:
  assumes u: "bounded_vec u" and q: "fin_vec q"
    and b: "\<bar>val (X q)\<bar> \<le> pow2 512" "\<bar>val (Y q)\<bar> \<le> pow2 512" "\<bar>val (Z q)\<bar> \<le> pow2 512"
    and ge: "val (X u) * val (X u) \<le> val (X u) * val (X q)"
      "val (Y u) * val (Y u) \<le> val (Y u) * val (Y q)"
      "val (Z u) * val (Z u) \<le> val (Z u) * val (Z q)"
  shows "at_least (dot_product q u)
           (fl_dot (val (X u)) (val (Y u)) (val (Z u)) (val (X u)) (val (Y u)) (val (Z u)))"
proof -
  have f: "fin_double (X u)" "fin_double (Y u)" "fin_double (Z u)"
    and bu: "\<bar>val (X u)\<bar> \<le> pow2 511" "\<bar>val (Y u)\<bar> \<le> pow2 511" "\<bar>val (Z u)\<bar> \<le> pow2 511"
    and fq: "fin_double (X q)" "fin_double (Y q)" "fin_double (Z q)"
    using u q by (simp_all add: bounded_vec_def fin_vec_def)
  note m1 = far_products [OF f(1) fq(1) bu(1) b(1)]
  note m2 = far_products [OF f(2) fq(2) bu(2) b(2)]
  note m3 = far_products [OF f(3) fq(3) bu(3) b(3)]
  have a1: "at_least (dmul (X u) (X q)) (srnd (val (X u) * val (X u)))"
    using m1 srnd_mono [OF ge(1)] by (simp add: at_least_def)
  have a2: "at_least (dmul (Y u) (Y q)) (srnd (val (Y u) * val (Y u)))"
    using m2 srnd_mono [OF ge(2)] by (simp add: at_least_def)
  have a3: "at_least (dmul (Z u) (Z q)) (srnd (val (Z u) * val (Z u)))"
    using m3 srnd_mono [OF ge(3)] by (simp add: at_least_def)
  have n1: "0 \<le> srnd (val (X u) * val (X u))" by (intro srnd_nonneg) simp
  have n2: "0 \<le> srnd (val (Y u) * val (Y u))" by (intro srnd_nonneg) simp
  have n3: "0 \<le> srnd (val (Z u) * val (Z u))" by (intro srnd_nonneg) simp
  note a12 = dadd_at_least [OF a1 a2 n1 n2]
  have n12: "0 \<le> srnd (srnd (val (X u) * val (X u)) + srnd (val (Y u) * val (Y u)))"
    using n1 n2 by (intro srnd_nonneg) simp
  from dadd_at_least [OF a12 a3 n12 n3] show ?thesis
    by (simp add: dot_product_def fl_dot_def)
qed

lemma far_dot_nonpos:
  assumes u: "bounded_vec u" and q: "fin_vec q"
    and b: "\<bar>val (X q)\<bar> \<le> pow2 512" "\<bar>val (Y q)\<bar> \<le> pow2 512" "\<bar>val (Z q)\<bar> \<le> pow2 512"
    and le: "val (X u) * val (X q) \<le> 0" "val (Y u) * val (Y q) \<le> 0"
      "val (Z u) * val (Z q) \<le> 0"
  shows "nonpos (dot_product q u)"
proof -
  have f: "fin_double (X u)" "fin_double (Y u)" "fin_double (Z u)"
    and bu: "\<bar>val (X u)\<bar> \<le> pow2 511" "\<bar>val (Y u)\<bar> \<le> pow2 511" "\<bar>val (Z u)\<bar> \<le> pow2 511"
    and fq: "fin_double (X q)" "fin_double (Y q)" "fin_double (Z q)"
    using u q by (simp_all add: bounded_vec_def fin_vec_def)
  note m1 = far_products [OF f(1) fq(1) bu(1) b(1)]
  note m2 = far_products [OF f(2) fq(2) bu(2) b(2)]
  note m3 = far_products [OF f(3) fq(3) bu(3) b(3)]
  have a1: "nonpos (dmul (X u) (X q))" using m1 srnd_nonpos [OF le(1)] by (simp add: nonpos_def)
  have a2: "nonpos (dmul (Y u) (Y q))" using m2 srnd_nonpos [OF le(2)] by (simp add: nonpos_def)
  have a3: "nonpos (dmul (Z u) (Z q))" using m3 srnd_nonpos [OF le(3)] by (simp add: nonpos_def)
  from dadd_nonpos [OF dadd_nonpos [OF a1 a2] a3] show ?thesis
    by (simp add: dot_product_def)
qed

lemma pow2_512: "pow2 512 = 2 ^ 511 + 2 ^ 511"
  using pow2_double [of 511] by (simp add: pow2_511)

section \<open>The general branch\<close>



section \<open>The parallel branch\<close>

text \<open>
  Claim C3. When \<open>length (cross v u) < eps\<close>, \<open>Intersect\<close> computes the distance of the
  two lines as \<open>length (cross u w0) / length u\<close> and returns the all-NaN vector whenever
  this quotient is greater than 0; the comparison is with the double \<open>0\<close> itself, with no
  tolerance, so it holds for every positive quotient however small (lemma
  \<open>dgt_zero_iff\<close>).
\<close>

theorem Intersect_parallel_apart:
  assumes "dlt (length_v (cross_product (direction s2) (direction s1))) eps"
    and "dgt (ddiv (length_v (cross_product (direction s1) (vsub (start s1) (start s2))))
                   (length_v (direction s1))) zero"
  shows "Intersect s1 s2 = nan_vec"
  using assms by (simp add: Intersect_def Let_def parallel_test_length)

theorem Intersect_parallel_apart_witness:
  "Intersect
     (seg (vec (Fin False 0) (Fin False 0) (Fin False 0)) (vec (Fin False 1) (Fin False 0) (Fin False 0)))
     (seg (vec (Fin False 0) (Fin False 1) (Fin False 0)) (vec (Fin False 1) (Fin False 1) (Fin False 0)))
   = nan_vec"
proof (rule Intersect_parallel_apart)
  show "dlt (length_v (cross_product
      (direction (seg (vec (Fin False 0) (Fin False 1) (Fin False 0))
                      (vec (Fin False 1) (Fin False 1) (Fin False 0))))
      (direction (seg (vec (Fin False 0) (Fin False 0) (Fin False 0))
                      (vec (Fin False 1) (Fin False 0) (Fin False 0)))))) eps"
    by (simp add: vec_eval op_eval rnd_eval eps_val cong: let_weak_cong)
  show "dgt (ddiv (length_v (cross_product
      (direction (seg (vec (Fin False 0) (Fin False 0) (Fin False 0))
                      (vec (Fin False 1) (Fin False 0) (Fin False 0))))
      (vsub (start (seg (vec (Fin False 0) (Fin False 0) (Fin False 0))
                        (vec (Fin False 1) (Fin False 0) (Fin False 0))))
            (start (seg (vec (Fin False 0) (Fin False 1) (Fin False 0))
                        (vec (Fin False 1) (Fin False 1) (Fin False 0)))))))
      (length_v (direction (seg (vec (Fin False 0) (Fin False 0) (Fin False 0))
                                (vec (Fin False 1) (Fin False 0) (Fin False 0)))))) zero"
    by (simp add: vec_eval op_eval rnd_eval cong: let_weak_cong)
qed



section \<open>The result lies on segment 1\<close>

lemma overlap_example:
  "Intersect
     (seg (vec (Fin False 0) (Fin False 0) (Fin False 0)) (vec (Fin False 2) (Fin False 0) (Fin False 0)))
     (seg (vec (Fin False 1) (Fin False 0) (Fin False 0)) (vec (Fin False 3) (Fin False 0) (Fin False 0)))
   = vec (Fin False 1) (Fin False 0) (Fin False 0)"
  by (simp add: Intersect_def collinear_overlap_def vec_eval op_eval rnd_eval eps_val
      cong: let_weak_cong)

text \<open>
  Claim C10. Whenever \<open>Intersect\<close> returns something other than the all-NaN vector, the
  result is \<open>P1 + (P2 - P1) * t\<close>, computed in doubles, for a parameter \<open>t\<close> with
  \<open>0 \<le> t \<le> 1\<close>. This holds for all inputs, so for those with finite coordinates.
\<close>

theorem Intersect_on_segment1:
  assumes "Intersect s1 s2 \<noteq> nan_vec"
  shows "\<exists>t. dle zero t \<and> dle t one
           \<and> Intersect s1 s2 = vadd (start s1) (vscale (direction s1) t)"
proof (cases "dlt (dabs (length_v (cross_product (direction s2) (direction s1)))) eps")
  case True
  define u where "u = direction s1"
  define t0 where "t0 = ddiv (dot_product (vsub (start s2) (start s1)) u) (dot_product u u)"
  define t1 where "t1 = ddiv (dot_product (vsub (endp s2) (start s1)) u) (dot_product u u)"
  define lo where "lo = (if dgt t0 t1 then t1 else t0)"
  define hi where "hi = (if dgt t0 t1 then t0 else t1)"
  have res: "Intersect s1 s2 =
      (if dgt (ddiv (length_v (cross_product u (vsub (start s1) (start s2)))) (length_v u)) zero
       then nan_vec
       else if dgt (dmax zero lo) (dmin one hi) then nan_vec
       else vadd (start s1) (vscale u (dmax zero lo)))"
    using True
    by (simp add: Intersect_def collinear_overlap_def Let_def
        u_def t0_def t1_def lo_def hi_def)
  with assms have ok: "\<not> dgt (dmax zero lo) (dmin one hi)"
    and eq: "Intersect s1 s2 = vadd (start s1) (vscale u (dmax zero lo))"
    by (auto split: if_splits)
  from clip_unit_interval [OF ok] eq show ?thesis
    unfolding u_def by blast
next
  case False
  define t where "t = (let P1 = start s1; Q1 = start s2;
         u = direction s1; v = direction s2; w0 = vsub P1 Q1;
         a = dot_product u u; b = dot_product v u; c = dot_product v v;
         d = dot_product u w0; e = dot_product v w0
     in round_to_n (ddiv (dadd (dneg (dmul d c)) (dmul b e)) (dsub (dmul a c) (dmul b b))) 6)"
  from False assms have eq: "Intersect s1 s2 = vadd (start s1) (vscale (direction s1) t)"
    and bounds: "\<not> dgt t one" "\<not> dlt t zero"
    by (auto simp: Intersect_def general_position_def Let_def t_def split: if_splits)
  from eq assms have "\<not> isnan t"
    by (cases t) (auto simp: vadd_vscale_NaN)
  with bounds have "dle zero t \<and> dle t one"
    by (simp add: dgt_def not_dlt_dle zero_def one_def)
  with eq show ?thesis by blast
qed

theorem Intersect_on_segment1_witness:
  "Intersect
     (seg (vec (Fin False 0) (Fin False 0) (Fin False 0)) (vec (Fin False 2) (Fin False 0) (Fin False 0)))
     (seg (vec (Fin False 1) (Fin False 0) (Fin False 0)) (vec (Fin False 3) (Fin False 0) (Fin False 0)))
     \<noteq> nan_vec
   \<and> (\<exists>t. dle zero t \<and> dle t one
         \<and> Intersect
              (seg (vec (Fin False 0) (Fin False 0) (Fin False 0)) (vec (Fin False 2) (Fin False 0) (Fin False 0)))
              (seg (vec (Fin False 1) (Fin False 0) (Fin False 0)) (vec (Fin False 3) (Fin False 0) (Fin False 0)))
            = vadd (start (seg (vec (Fin False 0) (Fin False 0) (Fin False 0))
                               (vec (Fin False 2) (Fin False 0) (Fin False 0))))
                   (vscale (direction (seg (vec (Fin False 0) (Fin False 0) (Fin False 0))
                                           (vec (Fin False 2) (Fin False 0) (Fin False 0)))) t))"
proof -
  have h: "Intersect
     (seg (vec (Fin False 0) (Fin False 0) (Fin False 0)) (vec (Fin False 2) (Fin False 0) (Fin False 0)))
     (seg (vec (Fin False 1) (Fin False 0) (Fin False 0)) (vec (Fin False 3) (Fin False 0) (Fin False 0)))
     \<noteq> nan_vec"
    unfolding overlap_example by (simp add: vec_def nan_vec_def)
  from h Intersect_on_segment1 [OF h] show ?thesis ..
qed

section \<open>Approximate equality\<close>

lemma dlt_zero_dle_eps: "dlt x zero \<Longrightarrow> dle x eps"
  by (cases x) (auto simp: zero_def eps_val sval_def split: if_splits)

text \<open>
  Claim C6. \<open>operator==\<close> holds exactly when, on each axis, the difference
  \<open>other - this\<close> is at most \<open>eps\<close>; no absolute value is taken. So every negative
  difference is accepted, however large, and the relation is not symmetric.
\<close>

theorem approx_eq_one_sided:
  "(approx_eq v w \<longleftrightarrow>
      dle (dsub (X w) (X v)) eps \<and> dle (dsub (Y w) (Y v)) eps \<and> dle (dsub (Z w) (Z v)) eps)
   \<and> (dlt (dsub (X w) (X v)) zero \<and> dlt (dsub (Y w) (Y v)) zero \<and> dlt (dsub (Z w) (Z v)) zero
        \<longrightarrow> approx_eq v w)
   \<and> (\<exists>v' w'. approx_eq v' w' \<and> approx_neq w' v')"
proof (intro conjI)
  show "approx_eq v w \<longleftrightarrow>
      dle (dsub (X w) (X v)) eps \<and> dle (dsub (Y w) (Y v)) eps \<and> dle (dsub (Z w) (Z v)) eps"
    by (simp add: approx_eq_def)
  show "dlt (dsub (X w) (X v)) zero \<and> dlt (dsub (Y w) (Y v)) zero \<and> dlt (dsub (Z w) (Z v)) zero
        \<longrightarrow> approx_eq v w"
    by (simp add: approx_eq_def dlt_zero_dle_eps)
  have "approx_eq (vec (Fin False 1) (Fin False 0) (Fin False 0)) (vec (Fin False 0) (Fin False 0) (Fin False 0))"
    by (simp add: approx_eq_def vec_eval op_eval rnd_eval eps_val cong: let_weak_cong)
  moreover have "approx_neq (vec (Fin False 0) (Fin False 0) (Fin False 0)) (vec (Fin False 1) (Fin False 0) (Fin False 0))"
    by (simp add: approx_neq_def approx_eq_def vec_eval op_eval rnd_eval eps_val cong: let_weak_cong)
  ultimately show "\<exists>v' w'. approx_eq v' w' \<and> approx_neq w' v'"
    by blast
qed

theorem approx_eq_one_sided_witness:
  "approx_eq (vec (Fin False 1000000) (Fin False 1000000) (Fin False 1000000))
             (vec (Fin False 0) (Fin False 0) (Fin False 0))
   \<and> approx_neq (vec (Fin False 0) (Fin False 0) (Fin False 0))
                 (vec (Fin False 1000000) (Fin False 1000000) (Fin False 1000000))"
proof
  have neg: "dlt (dsub (Fin False 0) (Fin False 1000000)) zero"
    by (simp add: op_eval rnd_eval cong: let_weak_cong)
  have "dlt (dsub (Fin False 0) (Fin False 1000000)) zero
        \<and> dlt (dsub (Fin False 0) (Fin False 1000000)) zero
        \<and> dlt (dsub (Fin False 0) (Fin False 1000000)) zero
     \<longrightarrow> approx_eq (vec (Fin False 1000000) (Fin False 1000000) (Fin False 1000000))
                   (vec (Fin False 0) (Fin False 0) (Fin False 0))"
    using approx_eq_one_sided
      [of "vec (Fin False 1000000) (Fin False 1000000) (Fin False 1000000)"
          "vec (Fin False 0) (Fin False 0) (Fin False 0)"]
    unfolding vec_def Vector3D.simps by (rule conjunct1 [OF conjunct2])
  with neg
  show "approx_eq (vec (Fin False 1000000) (Fin False 1000000) (Fin False 1000000))
                  (vec (Fin False 0) (Fin False 0) (Fin False 0))"
    by blast
  show "approx_neq (vec (Fin False 0) (Fin False 0) (Fin False 0))
                   (vec (Fin False 1000000) (Fin False 1000000) (Fin False 1000000))"
    by (simp add: approx_neq_def approx_eq_def vec_eval op_eval rnd_eval eps_val
        cong: let_weak_cong)
qed

section \<open>Degenerate first segment\<close>

text \<open>
  Claim C5 says that for a degenerate segment 1 (start and end the same finite point
  \<open>P\<close>) the result is \<open>P\<close> for every segment 2. This fails when the direction
  \<open>Q2 - Q1\<close> of segment 2 overflows: the cross product then contains \<open>0 * inf\<close>, the
  parallel test fails on a NaN, and the general branch returns the all-NaN vector.
\<close>

theorem degenerate_overflow_counterexample:
  "Intersect
     (seg (vec (Fin False 5) (Fin False 0) (Fin False 0)) (vec (Fin False 5) (Fin False 0) (Fin False 0)))
     (seg (vec (Fin False (2 ^ 1023)) (Fin False 0) (Fin False 0))
          (vec (Fin True (2 ^ 1023)) (Fin False 0) (Fin False 0)))
   = nan_vec
   \<and> nan_vec \<noteq> vec (Fin False 5) (Fin False 0) (Fin False 0)
   \<and> representable (2 ^ 1023)"
proof (intro conjI)
  show "Intersect
     (seg (vec (Fin False 5) (Fin False 0) (Fin False 0)) (vec (Fin False 5) (Fin False 0) (Fin False 0)))
     (seg (vec (Fin False (2 ^ 1023)) (Fin False 0) (Fin False 0))
          (vec (Fin True (2 ^ 1023)) (Fin False 0) (Fin False 0)))
   = nan_vec"
    by (simp add: full_eval cong: let_weak_cong)
  show "nan_vec \<noteq> vec (Fin False 5) (Fin False 0) (Fin False 0)"
    by (simp add: nan_vec_def vec_def)
  show "representable (2 ^ 1023)"
    by (simp add: representable_def rnd_eval cong: let_weak_cong)
qed

text \<open>
  Claim C5, amended. When segment 1 is degenerate, its point \<open>P\<close> has finite
  coordinates and the direction \<open>Q2 - Q1\<close> of segment 2 has finite coordinates, then
  \<open>Intersect\<close> returns \<open>P\<close> wherever segment 2 lies: every coordinate of the result
  compares equal to that of \<open>P\<close>, and the result is \<open>P\<close> itself unless \<open>P\<close> has a
  coordinate \<open>-0\<close>, which comes back as \<open>+0\<close>.
\<close>

theorem degenerate_first_segment:
  assumes "double_vec P" and "finite_vec P" and "finite_vec (direction s2)"
  shows "same_point (Intersect (seg P P) s2) P
       \<and> (neg_zero_free P \<longrightarrow> Intersect (seg P P) s2 = P)
       \<and> (X P = Fin True 0 \<longrightarrow> X (Intersect (seg P P) s2) = Fin False 0)
       \<and> (Y P = Fin True 0 \<longrightarrow> Y (Intersect (seg P P) s2) = Fin False 0)
       \<and> (Z P = Fin True 0 \<longrightarrow> Z (Intersect (seg P P) s2) = Fin False 0)"
proof -
  have "is_zero zero" by (simp add: zero_def)
  then have "zero_vec (vscale (vec zero zero zero) zero)"
    by (simp add: vscale_zero_vec zero_vec_finite)
  from vadd_zero_vec [OF assms(1,2) this]
  have "same_point (Intersect (seg P P) s2) P
       \<and> (neg_zero_free P \<longrightarrow> Intersect (seg P P) s2 = P)"
    by (simp add: degenerate_result [OF assms(2,3)])
  moreover have "dadd (Fin True 0) (dmul zero zero) = Fin False 0"
    by (simp add: zero_def sval_def)
  then have "(X P = Fin True 0 \<longrightarrow> X (Intersect (seg P P) s2) = Fin False 0)
       \<and> (Y P = Fin True 0 \<longrightarrow> Y (Intersect (seg P P) s2) = Fin False 0)
       \<and> (Z P = Fin True 0 \<longrightarrow> Z (Intersect (seg P P) s2) = Fin False 0)"
    by (simp add: degenerate_result [OF assms(2,3)] vadd_def vscale_def vec_def)
  ultimately show ?thesis by blast
qed

theorem degenerate_first_segment_witness:
  "same_point
     (Intersect
        (seg (vec (Fin False 5) (Fin False 0) (Fin False 0)) (vec (Fin False 5) (Fin False 0) (Fin False 0)))
        (seg (vec (Fin False 1) (Fin False 1) (Fin False 0)) (vec (Fin False 2) (Fin False 1) (Fin False 0))))
     (vec (Fin False 5) (Fin False 0) (Fin False 0))
   \<and> Intersect
        (seg (vec (Fin False 5) (Fin False 0) (Fin False 0)) (vec (Fin False 5) (Fin False 0) (Fin False 0)))
        (seg (vec (Fin False 1) (Fin False 1) (Fin False 0)) (vec (Fin False 2) (Fin False 1) (Fin False 0)))
      = vec (Fin False 5) (Fin False 0) (Fin False 0)"
proof -
  have dv: "double_vec (vec (Fin False 5) (Fin False 0) (Fin False 0))"
    by (simp add: double_vec_def vec_def representable_def rnd_eval cong: let_weak_cong)
  have fv: "finite_vec (vec (Fin False 5) (Fin False 0) (Fin False 0))"
    by (simp add: finite_vec_def vec_def)
  have fd: "finite_vec (direction
      (seg (vec (Fin False 1) (Fin False 1) (Fin False 0)) (vec (Fin False 2) (Fin False 1) (Fin False 0))))"
    by (simp add: finite_vec_def vec_eval op_eval rnd_eval cong: let_weak_cong)
  have nz: "neg_zero_free (vec (Fin False 5) (Fin False 0) (Fin False 0))"
    by (simp add: neg_zero_free_def vec_def)
  from degenerate_first_segment [OF dv fv fd] nz show ?thesis
    by blast
qed

section \<open>A segment with itself\<close>

text \<open>
  Claim C8 says that \<open>Intersect (S, S)\<close> is never the all-NaN vector for a segment with
  distinct end points. This fails when a product of two coordinates of the direction
  overflows: the cross product of the direction with itself is then \<open>inf - inf\<close>, a
  NaN, and the general branch returns the all-NaN vector.
\<close>

theorem self_intersection_counterexample:
  "Intersect
     (seg (vec (Fin False 0) (Fin False 0) (Fin False 0))
          (vec (Fin False (2 ^ 600)) (Fin False (2 ^ 600)) (Fin False 0)))
     (seg (vec (Fin False 0) (Fin False 0) (Fin False 0))
          (vec (Fin False (2 ^ 600)) (Fin False (2 ^ 600)) (Fin False 0)))
   = nan_vec
   \<and> representable (2 ^ 600)"
proof
  show "Intersect
     (seg (vec (Fin False 0) (Fin False 0) (Fin False 0))
          (vec (Fin False (2 ^ 600)) (Fin False (2 ^ 600)) (Fin False 0)))
     (seg (vec (Fin False 0) (Fin False 0) (Fin False 0))
          (vec (Fin False (2 ^ 600)) (Fin False (2 ^ 600)) (Fin False 0)))
   = nan_vec"
    by (simp add: full_eval cong: let_weak_cong)
  show "representable (2 ^ 600)"
    by (simp add: representable_def rnd_eval cong: let_weak_cong)
qed

text \<open>
  Claim C8, amended. For every segment \<open>S\<close> whose start has double coordinates and whose
  direction \<open>u = P2 - P1\<close> has finite pairwise products \<open>uX * uY\<close>, \<open>uX * uZ\<close> and
  \<open>uY * uZ\<close>, \<open>Intersect (S, S)\<close> takes the collinear branch and returns
  \<open>P1 + u * 0\<close>: not the all-NaN vector, and coordinate by coordinate equal to the start
  \<open>P1\<close> of \<open>S\<close>, a point of \<open>S\<close>.
\<close>

theorem self_intersection:
  assumes dbl: "double_vec (start S)"
    and xy: "is_finite (dmul (X (direction S)) (Y (direction S)))"
    and xz: "is_finite (dmul (X (direction S)) (Z (direction S)))"
    and yz: "is_finite (dmul (Y (direction S)) (Z (direction S)))"
  shows "Intersect S S = vadd (start S) (vscale (direction S) zero)
       \<and> Intersect S S \<noteq> nan_vec
       \<and> same_point (Intersect S S) (start S)"
proof -
  let ?u = "direction S"
  have fu: "finite_vec ?u"
    using is_finite_dmul [OF xy] is_finite_dmul [OF xz] by (simp add: finite_vec_def)
  then have fP: "finite_vec (start S)"
    by (blast dest: vsub_finite)
  have w0: "vsub (start S) (start S) = vec zero zero zero"
    using fP by (rule vsub_self)
  have par: "dlt (dabs (length_v (cross_product ?u ?u))) eps"
    using cross_self_zero [OF xy xz yz] by (simp add: length_zero_vec dlt_zero_eps)
  have "zero_vec (cross_product ?u (vec zero zero zero))"
    using fu by (simp add: cross_zero_right)
  then have "length_v (cross_product ?u (vec zero zero zero)) = zero"
    by (rule length_zero_vec)
  moreover have z: "is_zero zero" by (simp add: zero_def)
  ultimately
  have d: "\<not> dgt (ddiv (length_v (cross_product ?u (vec zero zero zero))) (length_v ?u)) zero"
    by (simp add: zn_not_dgt_zero zn_ddiv_any)
  have t0: "zero_or_nan (ddiv (dot_product (vec zero zero zero) ?u) (dot_product ?u ?u))"
    using fu by (simp add: zn_ddiv_any dot_zero_left)
  have t1: "ddiv (dot_product ?u ?u) (dot_product ?u ?u) = NaN
          \<or> ddiv (dot_product ?u ?u) (dot_product ?u ?u) = one"
    by (rule ddiv_self)
  have res: "Intersect S S = vadd (start S) (vscale ?u zero)"
    using par d overlap_from_start [OF t0 t1, of "start S" ?u]
    by (simp add: Intersect_def collinear_overlap_def Let_def w0)
  from fu z have "zero_vec (vscale ?u zero)"
    by (simp add: vscale_zero_vec)
  from vadd_zero_vec(1) [OF dbl fP this] have sp: "same_point (Intersect S S) (start S)"
    by (simp add: res)
  from res sp same_point_not_nan [OF sp] show ?thesis by simp
qed

theorem self_intersection_witness:
  "Intersect
     (seg (vec (Fin False 0) (Fin False 0) (Fin False 0)) (vec (Fin False 1) (Fin False 1) (Fin False 1)))
     (seg (vec (Fin False 0) (Fin False 0) (Fin False 0)) (vec (Fin False 1) (Fin False 1) (Fin False 1)))
     \<noteq> nan_vec
   \<and> same_point
       (Intersect
         (seg (vec (Fin False 0) (Fin False 0) (Fin False 0)) (vec (Fin False 1) (Fin False 1) (Fin False 1)))
         (seg (vec (Fin False 0) (Fin False 0) (Fin False 0)) (vec (Fin False 1) (Fin False 1) (Fin False 1))))
       (vec (Fin False 0) (Fin False 0) (Fin False 0))"
proof -
  let ?S = "seg (vec (Fin False 0) (Fin False 0) (Fin False 0))
                (vec (Fin False 1) (Fin False 1) (Fin False 1))"
  have dv: "double_vec (start ?S)"
    by (simp add: double_vec_def seg_def vec_def representable_def)
  have xy: "is_finite (dmul (X (direction ?S)) (Y (direction ?S)))"
    by (simp add: vec_eval op_eval rnd_eval cong: let_weak_cong)
  have xz: "is_finite (dmul (X (direction ?S)) (Z (direction ?S)))"
    by (simp add: vec_eval op_eval rnd_eval cong: let_weak_cong)
  have yz: "is_finite (dmul (Y (direction ?S)) (Z (direction ?S)))"
    by (simp add: vec_eval op_eval rnd_eval cong: let_weak_cong)
  have st: "start ?S = vec (Fin False 0) (Fin False 0) (Fin False 0)"
    by (simp add: seg_def)
  from self_intersection [OF dv xy xz yz] show ?thesis
    unfolding st by blast
qed

section \<open>Symmetry\<close>

text \<open>
  Claim C4 asks that \<open>Intersect (S1, S2)\<close> and \<open>Intersect (S2, S1)\<close> agree on whether
  there is an intersection. The code does not: for the degenerate segment at the origin
  and the segment from \<open>(1, 1, 0)\<close> to \<open>(2, 1, 0)\<close>, which do not meet, the first order
  returns the origin and the second the all-NaN vector.
\<close>

theorem Intersect_not_symmetric:
  "Intersect
     (seg (vec (Fin False 0) (Fin False 0) (Fin False 0)) (vec (Fin False 0) (Fin False 0) (Fin False 0)))
     (seg (vec (Fin False 1) (Fin False 1) (Fin False 0)) (vec (Fin False 2) (Fin False 1) (Fin False 0)))
   = vec (Fin False 0) (Fin False 0) (Fin False 0)
   \<and> Intersect
     (seg (vec (Fin False 1) (Fin False 1) (Fin False 0)) (vec (Fin False 2) (Fin False 1) (Fin False 0)))
     (seg (vec (Fin False 0) (Fin False 0) (Fin False 0)) (vec (Fin False 0) (Fin False 0) (Fin False 0)))
   = nan_vec"
proof
  show "Intersect
     (seg (vec (Fin False 0) (Fin False 0) (Fin False 0)) (vec (Fin False 0) (Fin False 0) (Fin False 0)))
     (seg (vec (Fin False 1) (Fin False 1) (Fin False 0)) (vec (Fin False 2) (Fin False 1) (Fin False 0)))
   = vec (Fin False 0) (Fin False 0) (Fin False 0)"
    by (simp add: full_eval cong: let_weak_cong)
  show "Intersect
     (seg (vec (Fin False 1) (Fin False 1) (Fin False 0)) (vec (Fin False 2) (Fin False 1) (Fin False 0)))
     (seg (vec (Fin False 0) (Fin False 0) (Fin False 0)) (vec (Fin False 0) (Fin False 0) (Fin False 0)))
   = nan_vec"
    by (simp add: full_eval cong: let_weak_cong)
qed

text \<open>
  Two segments of positive length disagree in the same way when their directions differ
  by less than \<open>eps\<close>: the parallel test is tolerant and the distance test is not.
\<close>

lemma near_parallel_not_symmetric:
  "Intersect
     (seg (vec (Fin False (1 / 2)) (Fin False 0) (Fin False 0)) (vec (Fin False 2) (Fin False 0) (Fin False 0)))
     (seg (vec (Fin False 0) (Fin False 0) (Fin False 0)) (vec (Fin False 1) (Fin False (1 / 2 ^ 20)) (Fin False 0)))
   = vec (Fin False (1 / 2)) (Fin False 0) (Fin False 0)
   \<and> Intersect
     (seg (vec (Fin False 0) (Fin False 0) (Fin False 0)) (vec (Fin False 1) (Fin False (1 / 2 ^ 20)) (Fin False 0)))
     (seg (vec (Fin False (1 / 2)) (Fin False 0) (Fin False 0)) (vec (Fin False 2) (Fin False 0) (Fin False 0)))
   = nan_vec"
  by (simp add: full_eval cong: let_weak_cong)

section \<open>Collinear segments touching at an end point\<close>

text \<open>
  Claim C7 says that two collinear segments sharing exactly one end point give that end
  point. This fails when the subtraction \<open>P2 - P1\<close> is rounded. The segments from
  \<open>(2 ^ 54, 0, 0)\<close> to \<open>(1, 0, 0)\<close> and from \<open>(1, 0, 0)\<close> to \<open>(0, 0, 0)\<close> lie on
  one line and have only the point \<open>(1, 0, 0)\<close> in common: the second begins where the
  first ends, at the parameter \<open>1\<close> of segment 1, and ends at the parameter
  \<open>2 ^ 54 / (2 ^ 54 - 1)\<close>. The direction \<open>1 - 2 ^ 54\<close> is rounded to \<open>- 2 ^ 54\<close>,
  both parameters are computed as \<open>1\<close>, and the result is \<open>2 ^ 54 - 2 ^ 54\<close>: the
  origin, not the shared end point.
\<close>

theorem shared_endpoint_counterexample:
  "Intersect
     (seg (vec (Fin False (2 ^ 54)) (Fin False 0) (Fin False 0)) (vec (Fin False 1) (Fin False 0) (Fin False 0)))
     (seg (vec (Fin False 1) (Fin False 0) (Fin False 0)) (vec (Fin False 0) (Fin False 0) (Fin False 0)))
   = (vec (Fin False 0) (Fin False 0) (Fin False 0))
   \<and> \<not> same_point (vec (Fin False 0) (Fin False 0) (Fin False 0)) (vec (Fin False 1) (Fin False 0) (Fin False 0))
   \<and> fin_vec (vec (Fin False (2 ^ 54)) (Fin False 0) (Fin False 0))
   \<and> at_param (vec (Fin False (2 ^ 54)) (Fin False 0) (Fin False 0)) (vec (Fin False 1) (Fin False 0) (Fin False 0)) 1 (vec (Fin False 1) (Fin False 0) (Fin False 0))
   \<and> at_param (vec (Fin False (2 ^ 54)) (Fin False 0) (Fin False 0)) (vec (Fin False 1) (Fin False 0) (Fin False 0)) (2 ^ 54 / (2 ^ 54 - 1)) (vec (Fin False 0) (Fin False 0) (Fin False 0))
   \<and> min (1::real) (2 ^ 54 / (2 ^ 54 - 1)) = 1
   \<and> \<not> exact_diff (vec (Fin False 1) (Fin False 0) (Fin False 0)) (vec (Fin False (2 ^ 54)) (Fin False 0) (Fin False 0))"
proof (intro conjI)
  show "Intersect
     (seg (vec (Fin False (2 ^ 54)) (Fin False 0) (Fin False 0)) (vec (Fin False 1) (Fin False 0) (Fin False 0)))
     (seg (vec (Fin False 1) (Fin False 0) (Fin False 0)) (vec (Fin False 0) (Fin False 0) (Fin False 0)))
   = (vec (Fin False 0) (Fin False 0) (Fin False 0))"
    by (simp add: full_eval cong: let_weak_cong)
  show "\<not> same_point (vec (Fin False 0) (Fin False 0) (Fin False 0)) (vec (Fin False 1) (Fin False 0) (Fin False 0))"
    by (simp add: same_point_def vec_def sval_def)
  show "fin_vec (vec (Fin False (2 ^ 54)) (Fin False 0) (Fin False 0))"
    by (simp add: fin_vec_def fin_double_def vec_def representable_def rnd_eval
          cong: let_weak_cong)
  show "at_param (vec (Fin False (2 ^ 54)) (Fin False 0) (Fin False 0)) (vec (Fin False 1) (Fin False 0) (Fin False 0)) 1 (vec (Fin False 1) (Fin False 0) (Fin False 0))"
    "at_param (vec (Fin False (2 ^ 54)) (Fin False 0) (Fin False 0)) (vec (Fin False 1) (Fin False 0) (Fin False 0)) (2 ^ 54 / (2 ^ 54 - 1)) (vec (Fin False 0) (Fin False 0) (Fin False 0))"
    by (simp_all add: at_param_def vec_def sval_def)
  show "min (1::real) (2 ^ 54 / (2 ^ 54 - 1)) = 1"
    by simp
  show "\<not> exact_diff (vec (Fin False 1) (Fin False 0) (Fin False 0)) (vec (Fin False (2 ^ 54)) (Fin False 0) (Fin False 0))"
    by (simp add: exact_diff_def exact1_def vec_def sval_def representable_def rnd_eval
          cong: let_weak_cong)
qed

text \<open>
  Claim C7, amended. Take four points with finite double coordinates on one line:
  \<open>Q1 = P1 + \<mu> * (P2 - P1)\<close> and \<open>Q2 = P1 + \<nu> * (P2 - P1)\<close> in real arithmetic.
  Let the segments touch in an end point only: \<open>min \<mu> \<nu> = 1\<close> (segment 2 begins or
  ends at \<open>P2\<close> and lies beyond it) or \<open>max \<mu> \<nu> = 0\<close> (the same at \<open>P1\<close>). Let
  the three vectors that the code tests, \<open>u = P2 - P1\<close>, \<open>v = Q2 - Q1\<close> and
  \<open>w0 = P1 - Q1\<close>, be exact: their coordinates are doubles themselves, of magnitude at
  most \<open>2 ^ 511\<close>, and some coordinate of \<open>u\<close> has magnitude at least \<open>2 ^ - 537\<close>.
  Then \<open>Intersect\<close> returns the shared end point: every coordinate of the result compares
  equal to that of the end point, and the result is the end point itself unless that has
  a coordinate \<open>-0\<close>. Every product and sum may be rounded, and so may the difference
  \<open>Q2 - P1\<close>; the sums may overflow in \<open>(Q2 - P1) \<cdot> u\<close>.
\<close>

theorem boundary_touch:
  fixes P1 P2 Q1 Q2 :: Vector3D and \<mu> \<nu> :: real
  assumes fin: "fin_vec P1" "fin_vec P2" "fin_vec Q1" "fin_vec Q2"
    and ex: "exact_diff P2 P1" "exact_diff Q2 Q1" "exact_diff P1 Q1"
    and sp: "spans P1 P2"
    and col: "at_param P1 P2 \<mu> Q1" "at_param P1 P2 \<nu> Q2"
    and touch: "min \<mu> \<nu> = 1 \<or> max \<mu> \<nu> = 0"
  shows "same_point (Intersect (seg P1 P2) (seg Q1 Q2)) (if min \<mu> \<nu> = 1 then P2 else P1)
       \<and> (neg_zero_free (if min \<mu> \<nu> = 1 then P2 else P1)
            \<longrightarrow> Intersect (seg P1 P2) (seg Q1 Q2) = (if min \<mu> \<nu> = 1 then P2 else P1))"
proof -
  define u1 u2 u3 where u_def: "u1 = val (X P2) - val (X P1)" "u2 = val (Y P2) - val (Y P1)"
    "u3 = val (Z P2) - val (Z P1)"
  let ?u = "vsub P2 P1" and ?v = "vsub Q2 Q1" and ?w0 = "vsub P1 Q1"
  let ?q1 = "vsub Q1 P1" and ?q2 = "vsub Q2 P1"
  have c1: "val (X Q1) - val (X P1) = \<mu> * u1" "val (Y Q1) - val (Y P1) = \<mu> * u2"
      "val (Z Q1) - val (Z P1) = \<mu> * u3"
    using col(1) by (simp_all add: at_param_def u_def)
  have c2: "val (X Q2) - val (X P1) = \<nu> * u1" "val (Y Q2) - val (Y P1) = \<nu> * u2"
      "val (Z Q2) - val (Z P1) = \<nu> * u3"
    using col(2) by (simp_all add: at_param_def u_def)
  have c3: "val (X Q2) - val (X Q1) = (\<nu> - \<mu>) * u1" "val (Y Q2) - val (Y Q1) = (\<nu> - \<mu>) * u2"
      "val (Z Q2) - val (Z Q1) = (\<nu> - \<mu>) * u3"
    using c1 c2 by (simp_all add: algebra_simps)
  have c4: "val (X P1) - val (X Q1) = - \<mu> * u1" "val (Y P1) - val (Y Q1) = - \<mu> * u2"
      "val (Z P1) - val (Z Q1) = - \<mu> * u3"
    using c1 by (simp_all add: algebra_simps)
  note ex' = exact_diff_sym [OF ex(3)]
  have U: "vals ?u u1 u2 u3"
    using vsub_vals [OF fin(2,1) ex(1)] by (simp add: u_def)
  have V: "vals ?v ((\<nu> - \<mu>) * u1) ((\<nu> - \<mu>) * u2) ((\<nu> - \<mu>) * u3)"
    using vsub_vals [OF fin(4,3) ex(2)] by (simp only: c3)
  have W: "vals ?w0 (- \<mu> * u1) (- \<mu> * u2) (- \<mu> * u3)"
    using vsub_vals [OF fin(1,3) ex(3)] by (simp only: c4)
  have A: "vals ?q1 (\<mu> * u1) (\<mu> * u2) (\<mu> * u3)"
    using vsub_vals [OF fin(3,1) ex'] by (simp only: c1)
  have bU: "bounded_vec ?u" using fin(2,1) ex(1) by (rule vsub_bounded)
  have bV: "bounded_vec ?v" using fin(4,3) ex(2) by (rule vsub_bounded)
  have bW: "bounded_vec ?w0" using fin(1,3) ex(3) by (rule vsub_bounded)
  have bA: "bounded_vec ?q1" using fin(3,1) ex' by (rule vsub_bounded)
  have vU: "val (X ?u) = u1" "val (Y ?u) = u2" "val (Z ?u) = u3"
    using U by (simp_all add: vals_def)
  have vV: "val (X ?v) = (\<nu> - \<mu>) * u1" "val (Y ?v) = (\<nu> - \<mu>) * u2" "val (Z ?v) = (\<nu> - \<mu>) * u3"
    using V by (simp_all add: vals_def)
  have vW: "val (X ?w0) = - \<mu> * u1" "val (Y ?w0) = - \<mu> * u2" "val (Z ?w0) = - \<mu> * u3"
    using W by (simp_all add: vals_def)
  have vA: "val (X ?q1) = \<mu> * u1" "val (Y ?q1) = \<mu> * u2" "val (Z ?q1) = \<mu> * u3"
    using A by (simp_all add: vals_def)
  have z1: "zero_vec (cross_product ?v ?u)"
    using bV bU by (rule cross_zero_collinear) (simp_all only: vU vV, simp_all)
  have z2: "zero_vec (cross_product ?u ?w0)"
    using bU bW by (rule cross_zero_collinear) (simp_all only: vU vW, simp_all)
  have branch: "Intersect (seg P1 P2) (seg Q1 Q2) = collinear_overlap P1 ?u Q1 Q2"
    using Intersect_collinear_branch [of "seg Q1 Q2" "seg P1 P2"] z1 z2
    by (simp add: seg_def)
  have fP1: "fin_double (X P1)" "fin_double (Y P1)" "fin_double (Z P1)"
    and fP2: "fin_double (X P2)" "fin_double (Y P2)" "fin_double (Z P2)"
    and fQ2: "fin_double (X Q2)" "fin_double (Y Q2)" "fin_double (Z Q2)"
    using fin by (simp_all add: fin_vec_def)
  have rep: "representable \<bar>u1\<bar>" "representable \<bar>u2\<bar>" "representable \<bar>u3\<bar>"
    using ex(1) by (simp_all add: exact_diff_def exact1_def u_def)
  have fu: "fin_double (X ?u)" "fin_double (Y ?u)" "fin_double (Z ?u)"
    using U by (simp_all add: vals_def fin_vec_def)
  have r512: "representable (pow2 512)" by (intro representable_pow2) simp_all
  have far: "\<bar>\<nu> * x\<bar> \<le> pow2 512"
    if "\<bar>(\<nu> - \<mu>) * x\<bar> \<le> 2 ^ 511" "\<bar>\<mu> * x\<bar> \<le> 2 ^ 511" for x
  proof -
    have "\<nu> * x = (\<nu> - \<mu>) * x + \<mu> * x" by (simp add: algebra_simps)
    then have "\<bar>\<nu> * x\<bar> \<le> \<bar>(\<nu> - \<mu>) * x\<bar> + \<bar>\<mu> * x\<bar>" by (simp only: abs_triangle_ineq)
    then show ?thesis using that unfolding pow2_512 by linarith
  qed
  have bnu: "\<bar>\<nu> * u1\<bar> \<le> pow2 512" "\<bar>\<nu> * u2\<bar> \<le> pow2 512" "\<bar>\<nu> * u3\<bar> \<le> pow2 512"
    using ex(2) ex' by (simp_all add: exact_diff_def exact1_def c3 c1 far)
  have q2X: "fin_double (X ?q2)" "val (X ?q2) = srnd (\<nu> * u1)"
    using dsub_val [OF fQ2(1) fP1(1) _ r512] bnu(1)
    by (simp_all add: vsub_def vec_def c2)
  have q2Y: "fin_double (Y ?q2)" "val (Y ?q2) = srnd (\<nu> * u2)"
    using dsub_val [OF fQ2(2) fP1(2) _ r512] bnu(2)
    by (simp_all add: vsub_def vec_def c2)
  have q2Z: "fin_double (Z ?q2)" "val (Z ?q2) = srnd (\<nu> * u3)"
    using dsub_val [OF fQ2(3) fP1(3) _ r512] bnu(3)
    by (simp_all add: vsub_def vec_def c2)
  have fq2: "fin_vec ?q2" using q2X(1) q2Y(1) q2Z(1) by (simp add: fin_vec_def)
  have bq2: "\<bar>val (X ?q2)\<bar> \<le> pow2 512" "\<bar>val (Y ?q2)\<bar> \<le> pow2 512" "\<bar>val (Z ?q2)\<bar> \<le> pow2 512"
    unfolding q2X(2) q2Y(2) q2Z(2) using bnu r512 by (simp_all add: srnd_bound)
  define D where "D = fl_dot u1 u2 u3 u1 u2 u3"
  define G where "G = (\<lambda>l. fl_dot (l * u1) (l * u2) (l * u3) u1 u2 u3)"
  note dU = dot_vals [OF bU bU, unfolded vU, folded D_def]
  have dA: "fin_double (dot_product ?q1 ?u)" "val (dot_product ?q1 ?u) = G \<mu>"
    using dot_vals [OF bA bU] by (simp_all add: vA vU G_def)
  have G1: "G 1 = D" by (simp add: G_def D_def)
  have G0: "G 0 = 0" by (simp add: G_def fl_dot_zero)
  have Gge: "D \<le> G l" if "1 \<le> l" for l
    unfolding G_def D_def using that by (intro fl_dot_mono sq_scale_ge)
  have Gle: "G l \<le> 0" if "l \<le> 0" for l
  proof -
    have "G l \<le> fl_dot 0 0 0 u1 u2 u3"
      unfolding G_def using that by (intro fl_dot_mono) (simp_all add: sq_scale_le)
    then show ?thesis by (simp add: fl_dot_zero)
  qed
  have Dpos: "0 < D"
  proof -
    have sq: "pow2 (- 1074) \<le> x * x" if "1 / 2 ^ 537 \<le> \<bar>x\<bar>" for x :: real
    proof -
      have "(1 / 2 ^ 537) * (1 / 2 ^ 537) \<le> \<bar>x\<bar> * \<bar>x\<bar>"
        using that by (intro mult_mono) simp_all
      then show ?thesis by (simp add: pow2_m1074)
    qed
    have "pow2 (- 1074) \<le> u1 * u1 \<or> pow2 (- 1074) \<le> u2 * u2 \<or> pow2 (- 1074) \<le> u3 * u3"
      using sp sq unfolding spans_def u_def [symmetric] by blast
    then have "pow2 (- 1074) \<le> D"
      unfolding D_def by (intro fl_dot_ge) simp_all
    moreover have "0 < pow2 (- 1074)" by simp
    ultimately show ?thesis by linarith
  qed
  define t0 where "t0 = ddiv (dot_product ?q1 ?u) (dot_product ?u ?u)"
  define t1 where "t1 = ddiv (dot_product ?q2 ?u) (dot_product ?u ?u)"
  have pos: "0 < val (dot_product ?u ?u)" using Dpos dU(2) by simp
  note T0 = ddiv_cases [OF dA(1) dU(1) pos, folded t0_def, unfolded dA(2) dU(2)]
  have exact_q2: "fin_double (dot_product ?q2 ?u)" "val (dot_product ?q2 ?u) = G \<nu>"
    if "\<nu> = 0 \<or> \<nu> = 1"
  proof -
    have v: "val (X ?q2) = \<nu> * u1" "val (Y ?q2) = \<nu> * u2" "val (Z ?q2) = \<nu> * u3"
      using that rep by (auto simp: q2X(2) q2Y(2) q2Z(2) srnd_representable)
    have "\<bar>\<nu> * x\<bar> \<le> \<bar>x\<bar>" for x :: real using that by auto
    then have "bounded_vec ?q2"
      using bU fq2 unfolding bounded_vec_def v vU by (meson order_trans)
    from dot_vals [OF this bU]
    show "fin_double (dot_product ?q2 ?u)" "val (dot_product ?q2 ?u) = G \<nu>"
      by (simp_all add: v vU G_def)
  qed
  have T1_one: "t1 = one" if "\<nu> = 1"
    unfolding t1_def using exact_q2 [of] that G1 dU pos by (intro ddiv_cases(1)) simp_all
  have T1_zero: "is_zero t1" if "\<nu> = 0"
    unfolding t1_def using exact_q2 [of] that G0 dU pos by (intro ddiv_cases(4)) simp_all
  have T1_ge: "at_least_one t1" if "1 \<le> \<nu>"
  proof -
    have "at_least (dot_product ?q2 ?u)
        (fl_dot (val (X ?u)) (val (Y ?u)) (val (Z ?u)) (val (X ?u)) (val (Y ?u)) (val (Z ?u)))"
      using bU fq2 bq2
      by (rule far_dot_at_least) (simp_all add: vU q2X(2) q2Y(2) q2Z(2) prod_rounded_ge rep that)
    then have "at_least (dot_product ?q2 ?u) (val (dot_product ?u ?u))"
      by (simp add: vU dU(2) D_def)
    then show ?thesis unfolding t1_def using dU(1) pos by (rule ddiv_at_least)
  qed
  have T1_le: "at_most_zero t1" if "\<nu> \<le> 0"
  proof -
    have "nonpos (dot_product ?q2 ?u)"
      using bU fq2 bq2
      by (rule far_dot_nonpos) (simp_all add: vU q2X(2) q2Y(2) q2Z(2) prod_rounded_le that)
    then show ?thesis unfolding t1_def using dU(1) pos by (rule ddiv_nonpos)
  qed
  have ov: "collinear_overlap P1 ?u Q1 Q2 =
      (let lo = (if dgt t0 t1 then t1 else t0);
           hi = (if dgt t0 t1 then t0 else t1);
           t_start = dmax zero lo;
           t_end = dmin one hi
       in if dgt t_start t_end then nan_vec else vadd P1 (vscale ?u t_start))"
    by (simp add: collinear_overlap_def t0_def t1_def Let_def)
  have rep': "representable \<bar>val (X P2) - val (X P1)\<bar>" "representable \<bar>val (Y P2) - val (Y P1)\<bar>"
      "representable \<bar>val (Z P2) - val (Z P1)\<bar>"
    using rep by (simp_all add: u_def)
  show ?thesis
  proof (cases "min \<mu> \<nu> = 1")
    case True
    then have mn: "1 \<le> \<mu>" "1 \<le> \<nu>" "\<mu> = 1 \<or> \<nu> = 1"
      by (auto simp: min_def split: if_splits)
    have g0: "at_least_one t0" using Gge [OF mn(1)] by (rule T0(2))
    have g1: "at_least_one t1" using mn(2) by (rule T1_ge)
    have o0: "t0 = one" if "\<mu> = 1" using that G1 by (intro T0(1)) simp
    from mn(3) g0 g1 o0 T1_one
    have "t0 = one \<and> at_least_one t1 \<or> at_least_one t0 \<and> t1 = one" by blast
    from overlap_touch_end [OF this, of P1 ?u]
    have "collinear_overlap P1 ?u Q1 Q2 = vadd P1 (vscale ?u one)"
      by (simp only: ov)
    with branch have res: "Intersect (seg P1 P2) (seg Q1 Q2) = vadd P1 (vscale ?u one)"
      by simp
    have X: "X (vadd P1 (vscale ?u one)) = dadd (X P1) (dmul (dsub (X P2) (X P1)) one)"
      and Y: "Y (vadd P1 (vscale ?u one)) = dadd (Y P1) (dmul (dsub (Y P2) (Y P1)) one)"
      and Z: "Z (vadd P1 (vscale ?u one)) = dadd (Z P1) (dmul (dsub (Z P2) (Z P1)) one)"
      by (simp_all add: vadd_def vscale_def vsub_def vec_def)
    have sp: "same_point (vadd P1 (vscale ?u one)) P2"
      unfolding same_point_def X Y Z
      using back_to_end [OF fP1(1) fP2(1) rep'(1)] back_to_end [OF fP1(2) fP2(2) rep'(2)]
        back_to_end [OF fP1(3) fP2(3) rep'(3)] fP2
      by (simp add: fin_double_deq)
    have eq: "vadd P1 (vscale ?u one) = P2" if "neg_zero_free P2"
    proof -
      have "X (vadd P1 (vscale ?u one)) = X P2" "Y (vadd P1 (vscale ?u one)) = Y P2"
        "Z (vadd P1 (vscale ?u one)) = Z P2"
        unfolding X Y Z
        using that back_to_end_exact [OF fP1(1) fP2(1) rep'(1)]
          back_to_end_exact [OF fP1(2) fP2(2) rep'(2)]
          back_to_end_exact [OF fP1(3) fP2(3) rep'(3)]
        by (simp_all add: neg_zero_free_def)
      then show ?thesis by simp
    qed
    show ?thesis using True sp eq by (simp add: res)
  next
    case False
    with touch have "max \<mu> \<nu> = 0" by simp
    then have mn: "\<mu> \<le> 0" "\<nu> \<le> 0" "\<mu> = 0 \<or> \<nu> = 0"
      by (auto simp: max_def split: if_splits)
    have z0: "at_most_zero t0" using Gle [OF mn(1)] by (rule T0(3))
    have z1: "at_most_zero t1" using mn(2) by (rule T1_le)
    have i0: "is_zero t0" if "\<mu> = 0" using that G0 by (intro T0(4)) simp
    have "is_zero t0 \<or> is_zero t1" using mn(3) i0 T1_zero by blast
    from overlap_touch_start [OF z0 z1 this, of P1 ?u]
    have "collinear_overlap P1 ?u Q1 Q2 = vadd P1 (vscale ?u zero)"
      by (simp only: ov)
    with branch have res: "Intersect (seg P1 P2) (seg Q1 Q2) = vadd P1 (vscale ?u zero)"
      by simp
    have X: "X (vadd P1 (vscale ?u zero)) = dadd (X P1) (dmul (X ?u) zero)"
      and Y: "Y (vadd P1 (vscale ?u zero)) = dadd (Y P1) (dmul (Y ?u) zero)"
      and Z: "Z (vadd P1 (vscale ?u zero)) = dadd (Z P1) (dmul (Z ?u) zero)"
      by (simp_all add: vadd_def vscale_def vec_def)
    have sp: "same_point (vadd P1 (vscale ?u zero)) P1"
      unfolding same_point_def X Y Z
      using stay_at_start(1,2) [OF fP1(1) fu(1)] stay_at_start(1,2) [OF fP1(2) fu(2)]
        stay_at_start(1,2) [OF fP1(3) fu(3)] fP1
      by (simp add: fin_double_deq)
    have eq: "vadd P1 (vscale ?u zero) = P1" if "neg_zero_free P1"
    proof -
      have "X (vadd P1 (vscale ?u zero)) = X P1" "Y (vadd P1 (vscale ?u zero)) = Y P1"
        "Z (vadd P1 (vscale ?u zero)) = Z P1"
        unfolding X Y Z
        using that stay_at_start(3) [OF fP1(1) fu(1)] stay_at_start(3) [OF fP1(2) fu(2)]
          stay_at_start(3) [OF fP1(3) fu(3)]
        by (simp_all add: neg_zero_free_def)
      then show ?thesis by simp
    qed
    show ?thesis using False sp eq by (simp add: res)
  qed
qed

theorem boundary_touch_witness:
  "Intersect
     (seg (vec (Fin False 0) (Fin False 0) (Fin False 0)) (vec (Fin False 1) (Fin False 1) (Fin False 1)))
     (seg (vec (Fin False 1) (Fin False 1) (Fin False 1)) (vec (Fin False 2) (Fin False 2) (Fin False 2)))
   = (vec (Fin False 1) (Fin False 1) (Fin False 1))
   \<and> Intersect
     (seg (vec (Fin False (2 ^ 30)) (Fin False (1 / 2)) (Fin False 0)) (vec (Fin False (2 ^ 30 + 1)) (Fin False (3 / 2)) (Fin False 0)))
     (seg (vec (Fin False (2 ^ 30 - 1)) (Fin True (1 / 2)) (Fin False 0)) (vec (Fin False (2 ^ 30)) (Fin False (1 / 2)) (Fin False 0)))
   = (vec (Fin False (2 ^ 30)) (Fin False (1 / 2)) (Fin False 0))"
proof
  show "Intersect
     (seg (vec (Fin False 0) (Fin False 0) (Fin False 0)) (vec (Fin False 1) (Fin False 1) (Fin False 1)))
     (seg (vec (Fin False 1) (Fin False 1) (Fin False 1)) (vec (Fin False 2) (Fin False 2) (Fin False 2)))
   = (vec (Fin False 1) (Fin False 1) (Fin False 1))"
    using boundary_touch [of
        "(vec (Fin False 0) (Fin False 0) (Fin False 0))" "(vec (Fin False 1) (Fin False 1) (Fin False 1))"
        "(vec (Fin False 1) (Fin False 1) (Fin False 1))" "(vec (Fin False 2) (Fin False 2) (Fin False 2))" 1 2]
    by (simp add: fin_vec_def fin_double_def exact_diff_def exact1_def spans_def at_param_def
          neg_zero_free_def vec_def sval_def representable_def rnd_eval cong: let_weak_cong)
  show "Intersect
     (seg (vec (Fin False (2 ^ 30)) (Fin False (1 / 2)) (Fin False 0)) (vec (Fin False (2 ^ 30 + 1)) (Fin False (3 / 2)) (Fin False 0)))
     (seg (vec (Fin False (2 ^ 30 - 1)) (Fin True (1 / 2)) (Fin False 0)) (vec (Fin False (2 ^ 30)) (Fin False (1 / 2)) (Fin False 0)))
   = (vec (Fin False (2 ^ 30)) (Fin False (1 / 2)) (Fin False 0))"
    using boundary_touch [of
        "(vec (Fin False (2 ^ 30)) (Fin False (1 / 2)) (Fin False 0))" "(vec (Fin False (2 ^ 30 + 1)) (Fin False (3 / 2)) (Fin False 0))"
        "(vec (Fin False (2 ^ 30 - 1)) (Fin True (1 / 2)) (Fin False 0))" "(vec (Fin False (2 ^ 30)) (Fin False (1 / 2)) (Fin False 0))" "- 1" 0]
    by (simp add: fin_vec_def fin_double_def exact_diff_def exact1_def spans_def at_param_def
          neg_zero_free_def vec_def sval_def representable_def rnd_eval cong: let_weak_cong)
qed

text \<open>
  Each condition of the theorem excludes a touch that goes wrong. If \<open>v = Q2 - Q1\<close> is
  rounded, the parallel test can fail (segments from the origin to \<open>(7, 9, 0)\<close> and from
  there to \<open>2 ^ 53 * (7, 9, 0)\<close>); if \<open>w0 = P1 - Q1\<close> is rounded, the distance \<open>d\<close> can
  be positive (segments from \<open>(2 ^ 52 + 2, 6, 0)\<close> to \<open>(3, 0, 0)\<close> and from
  \<open>(5 - 2 ^ 53, - 12, 0)\<close> to \<open>(3, 0, 0)\<close>): both give the all-NaN vector. If
  \<open>u \<cdot> u\<close> overflows (from \<open>0\<close> to \<open>2 ^ 512\<close> and from \<open>2 ^ 512\<close> to \<open>2 ^ 513\<close> on
  the first axis) or is rounded to zero (from \<open>0\<close> to \<open>2 ^ - 538\<close> and from
  \<open>2 ^ - 538\<close> to \<open>2 ^ - 537\<close>), both parameters are NaN and \<open>P1\<close> is returned.
\<close>

lemma touch_conditions_needed:
  "Intersect
     (seg (vec (Fin False 0) (Fin False 0) (Fin False 0)) (vec (Fin False 7) (Fin False 9) (Fin False 0)))
     (seg (vec (Fin False 7) (Fin False 9) (Fin False 0)) (vec (Fin False (7 * 2 ^ 53)) (Fin False (9 * 2 ^ 53)) (Fin False 0)))
   = nan_vec"
  "Intersect
     (seg (vec (Fin False (2 ^ 52 + 2)) (Fin False 6) (Fin False 0)) (vec (Fin False 3) (Fin False 0) (Fin False 0)))
     (seg (vec (Fin True (2 ^ 53 - 5)) (Fin True 12) (Fin False 0)) (vec (Fin False 3) (Fin False 0) (Fin False 0)))
   = nan_vec"
  "Intersect
     (seg (vec (Fin False 0) (Fin False 0) (Fin False 0)) (vec (Fin False (2 ^ 512)) (Fin False 0) (Fin False 0)))
     (seg (vec (Fin False (2 ^ 512)) (Fin False 0) (Fin False 0)) (vec (Fin False (2 ^ 513)) (Fin False 0) (Fin False 0)))
   = (vec (Fin False 0) (Fin False 0) (Fin False 0))"
  "Intersect
     (seg (vec (Fin False 0) (Fin False 0) (Fin False 0)) (vec (Fin False (1 / 2 ^ 538)) (Fin False 0) (Fin False 0)))
     (seg (vec (Fin False (1 / 2 ^ 538)) (Fin False 0) (Fin False 0)) (vec (Fin False (1 / 2 ^ 537)) (Fin False 0) (Fin False 0)))
   = (vec (Fin False 0) (Fin False 0) (Fin False 0))"
  by (simp_all add: full_eval cong: let_weak_cong)

text \<open>
  The theorem is about segments that touch. When two collinear segments share an end
  point and overlap beyond it, the result need not be that end point: for the segments
  from \<open>(0, 0, 0)\<close> to \<open>(2, 2, 2)\<close> and from \<open>(1, 1, 1)\<close> to \<open>(2, 2, 2)\<close> it is
  \<open>(1, 1, 1)\<close>.
\<close>

lemma overlap_beyond_shared_endpoint:
  "Intersect
     (seg (vec (Fin False 0) (Fin False 0) (Fin False 0)) (vec (Fin False 2) (Fin False 2) (Fin False 2)))
     (seg (vec (Fin False 1) (Fin False 1) (Fin False 1)) (vec (Fin False 2) (Fin False 2) (Fin False 2)))
   = (vec (Fin False 1) (Fin False 1) (Fin False 1))"
  by (simp add: full_eval cong: let_weak_cong)

section \<open>The result is a vector of doubles\<close>

text \<open>
  The operations above are functions on double values, in the default mode of IEEE
  arithmetic: where a real result does not exist or is too large, the result is a NaN or
  an infinity. What the compiled program does outside this mode (a trap on a
  floating-point exception, say) is not represented. In the model every result of
  \<open>Intersect\<close> has double coordinates, and it is the all-NaN vector or a point
  \<open>P1 + u * t\<close>.
\<close>

lemma Intersect_double_vec:
  "double_vec (Intersect s1 s2)"
  using Intersect_shape [of s1 s2] by auto

end
